theory Spec2Isabelle
  imports Complex_Main
begin

section \<open>Python strings\<close>

text \<open>
  A Python \<^verbatim>\<open>str\<close> is a sequence of Unicode code points, so a string is modelled as
  a list of code points. ASCII literals are written \<open>ascii ''...''\<close>.
\<close>

type_synonym pystr = "nat list"

definition ascii :: "string \<Rightarrow> pystr" where
  "ascii s = map of_char s"

text \<open>\<^verbatim>\<open>str.isspace\<close> on one code point: the Unicode white space characters.\<close>

definition isspace :: "nat \<Rightarrow> bool" where
  "isspace c \<longleftrightarrow>
     (9 \<le> c \<and> c \<le> 13) \<or> (28 \<le> c \<and> c \<le> 32) \<or> c = 0x85 \<or> c = 0xA0 \<or> c = 0x1680 \<or>
     (0x2000 \<le> c \<and> c \<le> 0x200A) \<or> c = 0x2028 \<or> c = 0x2029 \<or> c = 0x202F \<or>
     c = 0x205F \<or> c = 0x3000"

text \<open>\<^verbatim>\<open>s.strip()\<close>: leading and trailing white space removed.\<close>

definition strip :: "pystr \<Rightarrow> pystr" where
  "strip s = rev (dropWhile isspace (rev (dropWhile isspace s)))"

text \<open>
  \<^verbatim>\<open>s.lower()\<close> is the full lower-case mapping of Unicode; the tables below are those
  of Unicode 14.0, the version of CPython 3.11. An entry \<open>(lo, hi, step, img)\<close> of
  \<open>lower_table\<close> says that the code points \<open>lo\<close>, \<open>lo + step\<close>, ... up to \<open>hi\<close> are
  mapped to \<open>img\<close>, \<open>img + step\<close>, ...; a code point in no entry is mapped to itself. U+0130 is the one code point whose lower case has two code points.
\<close>

definition lower_table :: "(nat \<times> nat \<times> nat \<times> nat) list" where
  "lower_table =
     [(0x41, 0x5A, 1, 0x61), (0xC0, 0xD6, 1, 0xE0), (0xD8, 0xDE, 1, 0xF8), (0x100, 0x12E, 2, 0x101),
      (0x132, 0x136, 2, 0x133), (0x139, 0x147, 2, 0x13A), (0x14A, 0x176, 2, 0x14B), (0x178, 0x178, 1, 0xFF),
      (0x179, 0x17D, 2, 0x17A), (0x181, 0x181, 1, 0x253), (0x182, 0x184, 2, 0x183), (0x186, 0x186, 1, 0x254),
      (0x187, 0x187, 1, 0x188), (0x189, 0x18A, 1, 0x256), (0x18B, 0x18B, 1, 0x18C), (0x18E, 0x18E, 1, 0x1DD),
      (0x18F, 0x18F, 1, 0x259), (0x190, 0x190, 1, 0x25B), (0x191, 0x191, 1, 0x192), (0x193, 0x193, 1, 0x260),
      (0x194, 0x194, 1, 0x263), (0x196, 0x196, 1, 0x269), (0x197, 0x197, 1, 0x268), (0x198, 0x198, 1, 0x199),
      (0x19C, 0x19C, 1, 0x26F), (0x19D, 0x19D, 1, 0x272), (0x19F, 0x19F, 1, 0x275), (0x1A0, 0x1A4, 2, 0x1A1),
      (0x1A6, 0x1A6, 1, 0x280), (0x1A7, 0x1A7, 1, 0x1A8), (0x1A9, 0x1A9, 1, 0x283), (0x1AC, 0x1AC, 1, 0x1AD),
      (0x1AE, 0x1AE, 1, 0x288), (0x1AF, 0x1AF, 1, 0x1B0), (0x1B1, 0x1B2, 1, 0x28A), (0x1B3, 0x1B5, 2, 0x1B4),
      (0x1B7, 0x1B7, 1, 0x292), (0x1B8, 0x1B8, 1, 0x1B9), (0x1BC, 0x1BC, 1, 0x1BD), (0x1C4, 0x1C4, 1, 0x1C6),
      (0x1C5, 0x1C5, 1, 0x1C6), (0x1C7, 0x1C7, 1, 0x1C9), (0x1C8, 0x1C8, 1, 0x1C9), (0x1CA, 0x1CA, 1, 0x1CC),
      (0x1CB, 0x1DB, 2, 0x1CC), (0x1DE, 0x1EE, 2, 0x1DF), (0x1F1, 0x1F1, 1, 0x1F3), (0x1F2, 0x1F4, 2, 0x1F3),
      (0x1F6, 0x1F6, 1, 0x195), (0x1F7, 0x1F7, 1, 0x1BF), (0x1F8, 0x21E, 2, 0x1F9), (0x220, 0x220, 1, 0x19E),
      (0x222, 0x232, 2, 0x223), (0x23A, 0x23A, 1, 0x2C65), (0x23B, 0x23B, 1, 0x23C), (0x23D, 0x23D, 1, 0x19A),
      (0x23E, 0x23E, 1, 0x2C66), (0x241, 0x241, 1, 0x242), (0x243, 0x243, 1, 0x180), (0x244, 0x244, 1, 0x289),
      (0x245, 0x245, 1, 0x28C), (0x246, 0x24E, 2, 0x247), (0x370, 0x372, 2, 0x371), (0x376, 0x376, 1, 0x377),
      (0x37F, 0x37F, 1, 0x3F3), (0x386, 0x386, 1, 0x3AC), (0x388, 0x38A, 1, 0x3AD), (0x38C, 0x38C, 1, 0x3CC),
      (0x38E, 0x38F, 1, 0x3CD), (0x391, 0x3A1, 1, 0x3B1), (0x3A3, 0x3AB, 1, 0x3C3), (0x3CF, 0x3CF, 1, 0x3D7),
      (0x3D8, 0x3EE, 2, 0x3D9), (0x3F4, 0x3F4, 1, 0x3B8), (0x3F7, 0x3F7, 1, 0x3F8), (0x3F9, 0x3F9, 1, 0x3F2),
      (0x3FA, 0x3FA, 1, 0x3FB), (0x3FD, 0x3FF, 1, 0x37B), (0x400, 0x40F, 1, 0x450), (0x410, 0x42F, 1, 0x430),
      (0x460, 0x480, 2, 0x461), (0x48A, 0x4BE, 2, 0x48B), (0x4C0, 0x4C0, 1, 0x4CF), (0x4C1, 0x4CD, 2, 0x4C2),
      (0x4D0, 0x52E, 2, 0x4D1), (0x531, 0x556, 1, 0x561), (0x10A0, 0x10C5, 1, 0x2D00), (0x10C7, 0x10C7, 1, 0x2D27),
      (0x10CD, 0x10CD, 1, 0x2D2D), (0x13A0, 0x13EF, 1, 0xAB70), (0x13F0, 0x13F5, 1, 0x13F8), (0x1C90, 0x1CBA, 1, 0x10D0),
      (0x1CBD, 0x1CBF, 1, 0x10FD), (0x1E00, 0x1E94, 2, 0x1E01), (0x1E9E, 0x1E9E, 1, 0xDF), (0x1EA0, 0x1EFE, 2, 0x1EA1),
      (0x1F08, 0x1F0F, 1, 0x1F00), (0x1F18, 0x1F1D, 1, 0x1F10), (0x1F28, 0x1F2F, 1, 0x1F20), (0x1F38, 0x1F3F, 1, 0x1F30),
      (0x1F48, 0x1F4D, 1, 0x1F40), (0x1F59, 0x1F5F, 2, 0x1F51), (0x1F68, 0x1F6F, 1, 0x1F60), (0x1F88, 0x1F8F, 1, 0x1F80),
      (0x1F98, 0x1F9F, 1, 0x1F90), (0x1FA8, 0x1FAF, 1, 0x1FA0), (0x1FB8, 0x1FB9, 1, 0x1FB0), (0x1FBA, 0x1FBB, 1, 0x1F70),
      (0x1FBC, 0x1FBC, 1, 0x1FB3), (0x1FC8, 0x1FCB, 1, 0x1F72), (0x1FCC, 0x1FCC, 1, 0x1FC3), (0x1FD8, 0x1FD9, 1, 0x1FD0),
      (0x1FDA, 0x1FDB, 1, 0x1F76), (0x1FE8, 0x1FE9, 1, 0x1FE0), (0x1FEA, 0x1FEB, 1, 0x1F7A), (0x1FEC, 0x1FEC, 1, 0x1FE5),
      (0x1FF8, 0x1FF9, 1, 0x1F78), (0x1FFA, 0x1FFB, 1, 0x1F7C), (0x1FFC, 0x1FFC, 1, 0x1FF3), (0x2126, 0x2126, 1, 0x3C9),
      (0x212A, 0x212A, 1, 0x6B), (0x212B, 0x212B, 1, 0xE5), (0x2132, 0x2132, 1, 0x214E), (0x2160, 0x216F, 1, 0x2170),
      (0x2183, 0x2183, 1, 0x2184), (0x24B6, 0x24CF, 1, 0x24D0), (0x2C00, 0x2C2F, 1, 0x2C30), (0x2C60, 0x2C60, 1, 0x2C61),
      (0x2C62, 0x2C62, 1, 0x26B), (0x2C63, 0x2C63, 1, 0x1D7D), (0x2C64, 0x2C64, 1, 0x27D), (0x2C67, 0x2C6B, 2, 0x2C68),
      (0x2C6D, 0x2C6D, 1, 0x251), (0x2C6E, 0x2C6E, 1, 0x271), (0x2C6F, 0x2C6F, 1, 0x250), (0x2C70, 0x2C70, 1, 0x252),
      (0x2C72, 0x2C72, 1, 0x2C73), (0x2C75, 0x2C75, 1, 0x2C76), (0x2C7E, 0x2C7F, 1, 0x23F), (0x2C80, 0x2CE2, 2, 0x2C81),
      (0x2CEB, 0x2CED, 2, 0x2CEC), (0x2CF2, 0x2CF2, 1, 0x2CF3), (0xA640, 0xA66C, 2, 0xA641), (0xA680, 0xA69A, 2, 0xA681),
      (0xA722, 0xA72E, 2, 0xA723), (0xA732, 0xA76E, 2, 0xA733), (0xA779, 0xA77B, 2, 0xA77A), (0xA77D, 0xA77D, 1, 0x1D79),
      (0xA77E, 0xA786, 2, 0xA77F), (0xA78B, 0xA78B, 1, 0xA78C), (0xA78D, 0xA78D, 1, 0x265), (0xA790, 0xA792, 2, 0xA791),
      (0xA796, 0xA7A8, 2, 0xA797), (0xA7AA, 0xA7AA, 1, 0x266), (0xA7AB, 0xA7AB, 1, 0x25C), (0xA7AC, 0xA7AC, 1, 0x261),
      (0xA7AD, 0xA7AD, 1, 0x26C), (0xA7AE, 0xA7AE, 1, 0x26A), (0xA7B0, 0xA7B0, 1, 0x29E), (0xA7B1, 0xA7B1, 1, 0x287),
      (0xA7B2, 0xA7B2, 1, 0x29D), (0xA7B3, 0xA7B3, 1, 0xAB53), (0xA7B4, 0xA7C2, 2, 0xA7B5), (0xA7C4, 0xA7C4, 1, 0xA794),
      (0xA7C5, 0xA7C5, 1, 0x282), (0xA7C6, 0xA7C6, 1, 0x1D8E), (0xA7C7, 0xA7C9, 2, 0xA7C8), (0xA7D0, 0xA7D0, 1, 0xA7D1),
      (0xA7D6, 0xA7D8, 2, 0xA7D7), (0xA7F5, 0xA7F5, 1, 0xA7F6), (0xFF21, 0xFF3A, 1, 0xFF41), (0x10400, 0x10427, 1, 0x10428),
      (0x104B0, 0x104D3, 1, 0x104D8), (0x10570, 0x1057A, 1, 0x10597), (0x1057C, 0x1058A, 1, 0x105A3), (0x1058C, 0x10592, 1, 0x105B3),
      (0x10594, 0x10595, 1, 0x105BB), (0x10C80, 0x10CB2, 1, 0x10CC0), (0x118A0, 0x118BF, 1, 0x118C0), (0x16E40, 0x16E5F, 1, 0x16E60),
      (0x1E900, 0x1E921, 1, 0x1E922)]"

definition to_lower_full :: "nat \<Rightarrow> pystr" where
  "to_lower_full c =
     (if c = 0x130 then [0x69, 0x307]
      else case find (\<lambda>(lo, hi, step, img). lo \<le> c \<and> c \<le> hi \<and> (c - lo) mod step = 0)
                     lower_table of
             None \<Rightarrow> [c]
           | Some (lo, hi, step, img) \<Rightarrow> [img + (c - lo)])"

text \<open>
  The code points with the Unicode properties Cased and Case_Ignorable, as ranges
  \<open>(lo, hi)\<close>.
\<close>

definition cased_table :: "(nat \<times> nat) list" where
  "cased_table =
     [(0x41, 0x5A), (0x61, 0x7A), (0xAA, 0xAA), (0xB5, 0xB5), (0xBA, 0xBA), (0xC0, 0xD6),
      (0xD8, 0xF6), (0xF8, 0x1BA), (0x1BC, 0x1BF), (0x1C4, 0x293), (0x295, 0x2B8), (0x2C0, 0x2C1),
      (0x2E0, 0x2E4), (0x345, 0x345), (0x370, 0x373), (0x376, 0x377), (0x37A, 0x37D), (0x37F, 0x37F),
      (0x386, 0x386), (0x388, 0x38A), (0x38C, 0x38C), (0x38E, 0x3A1), (0x3A3, 0x3F5), (0x3F7, 0x481),
      (0x48A, 0x52F), (0x531, 0x556), (0x560, 0x588), (0x10A0, 0x10C5), (0x10C7, 0x10C7), (0x10CD, 0x10CD),
      (0x10D0, 0x10FA), (0x10FD, 0x10FF), (0x13A0, 0x13F5), (0x13F8, 0x13FD), (0x1C80, 0x1C88), (0x1C90, 0x1CBA),
      (0x1CBD, 0x1CBF), (0x1D00, 0x1DBF), (0x1E00, 0x1F15), (0x1F18, 0x1F1D), (0x1F20, 0x1F45), (0x1F48, 0x1F4D),
      (0x1F50, 0x1F57), (0x1F59, 0x1F59), (0x1F5B, 0x1F5B), (0x1F5D, 0x1F5D), (0x1F5F, 0x1F7D), (0x1F80, 0x1FB4),
      (0x1FB6, 0x1FBC), (0x1FBE, 0x1FBE), (0x1FC2, 0x1FC4), (0x1FC6, 0x1FCC), (0x1FD0, 0x1FD3), (0x1FD6, 0x1FDB),
      (0x1FE0, 0x1FEC), (0x1FF2, 0x1FF4), (0x1FF6, 0x1FFC), (0x2071, 0x2071), (0x207F, 0x207F), (0x2090, 0x209C),
      (0x2102, 0x2102), (0x2107, 0x2107), (0x210A, 0x2113), (0x2115, 0x2115), (0x2119, 0x211D), (0x2124, 0x2124),
      (0x2126, 0x2126), (0x2128, 0x2128), (0x212A, 0x212D), (0x212F, 0x2134), (0x2139, 0x2139), (0x213C, 0x213F),
      (0x2145, 0x2149), (0x214E, 0x214E), (0x2160, 0x217F), (0x2183, 0x2184), (0x24B6, 0x24E9), (0x2C00, 0x2CE4),
      (0x2CEB, 0x2CEE), (0x2CF2, 0x2CF3), (0x2D00, 0x2D25), (0x2D27, 0x2D27), (0x2D2D, 0x2D2D), (0xA640, 0xA66D),
      (0xA680, 0xA69D), (0xA722, 0xA787), (0xA78B, 0xA78E), (0xA790, 0xA7CA), (0xA7D0, 0xA7D1), (0xA7D3, 0xA7D3),
      (0xA7D5, 0xA7D9), (0xA7F5, 0xA7F6), (0xA7F8, 0xA7FA), (0xAB30, 0xAB5A), (0xAB5C, 0xAB68), (0xAB70, 0xABBF),
      (0xFB00, 0xFB06), (0xFB13, 0xFB17), (0xFF21, 0xFF3A), (0xFF41, 0xFF5A), (0x10400, 0x1044F), (0x104B0, 0x104D3),
      (0x104D8, 0x104FB), (0x10570, 0x1057A), (0x1057C, 0x1058A), (0x1058C, 0x10592), (0x10594, 0x10595), (0x10597, 0x105A1),
      (0x105A3, 0x105B1), (0x105B3, 0x105B9), (0x105BB, 0x105BC), (0x10780, 0x10780), (0x10783, 0x10785), (0x10787, 0x107B0),
      (0x107B2, 0x107BA), (0x10C80, 0x10CB2), (0x10CC0, 0x10CF2), (0x118A0, 0x118DF), (0x16E40, 0x16E7F), (0x1D400, 0x1D454),
      (0x1D456, 0x1D49C), (0x1D49E, 0x1D49F), (0x1D4A2, 0x1D4A2), (0x1D4A5, 0x1D4A6), (0x1D4A9, 0x1D4AC), (0x1D4AE, 0x1D4B9),
      (0x1D4BB, 0x1D4BB), (0x1D4BD, 0x1D4C3), (0x1D4C5, 0x1D505), (0x1D507, 0x1D50A), (0x1D50D, 0x1D514), (0x1D516, 0x1D51C),
      (0x1D51E, 0x1D539), (0x1D53B, 0x1D53E), (0x1D540, 0x1D544), (0x1D546, 0x1D546), (0x1D54A, 0x1D550), (0x1D552, 0x1D6A5),
      (0x1D6A8, 0x1D6C0), (0x1D6C2, 0x1D6DA), (0x1D6DC, 0x1D6FA), (0x1D6FC, 0x1D714), (0x1D716, 0x1D734), (0x1D736, 0x1D74E),
      (0x1D750, 0x1D76E), (0x1D770, 0x1D788), (0x1D78A, 0x1D7A8), (0x1D7AA, 0x1D7C2), (0x1D7C4, 0x1D7CB), (0x1DF00, 0x1DF09),
      (0x1DF0B, 0x1DF1E), (0x1E900, 0x1E943), (0x1F130, 0x1F149), (0x1F150, 0x1F169), (0x1F170, 0x1F189)]"

definition case_ignorable_table :: "(nat \<times> nat) list" where
  "case_ignorable_table =
     [(0x27, 0x27), (0x2E, 0x2E), (0x3A, 0x3A), (0x5E, 0x5E), (0x60, 0x60), (0xA8, 0xA8),
      (0xAD, 0xAD), (0xAF, 0xAF), (0xB4, 0xB4), (0xB7, 0xB8), (0x2B0, 0x36F), (0x374, 0x375),
      (0x37A, 0x37A), (0x384, 0x385), (0x387, 0x387), (0x483, 0x489), (0x559, 0x559), (0x55F, 0x55F),
      (0x591, 0x5BD), (0x5BF, 0x5BF), (0x5C1, 0x5C2), (0x5C4, 0x5C5), (0x5C7, 0x5C7), (0x5F4, 0x5F4),
      (0x600, 0x605), (0x610, 0x61A), (0x61C, 0x61C), (0x640, 0x640), (0x64B, 0x65F), (0x670, 0x670),
      (0x6D6, 0x6DD), (0x6DF, 0x6E8), (0x6EA, 0x6ED), (0x70F, 0x70F), (0x711, 0x711), (0x730, 0x74A),
      (0x7A6, 0x7B0), (0x7EB, 0x7F5), (0x7FA, 0x7FA), (0x7FD, 0x7FD), (0x816, 0x82D), (0x859, 0x85B),
      (0x888, 0x888), (0x890, 0x891), (0x898, 0x89F), (0x8C9, 0x902), (0x93A, 0x93A), (0x93C, 0x93C),
      (0x941, 0x948), (0x94D, 0x94D), (0x951, 0x957), (0x962, 0x963), (0x971, 0x971), (0x981, 0x981),
      (0x9BC, 0x9BC), (0x9C1, 0x9C4), (0x9CD, 0x9CD), (0x9E2, 0x9E3), (0x9FE, 0x9FE), (0xA01, 0xA02),
      (0xA3C, 0xA3C), (0xA41, 0xA42), (0xA47, 0xA48), (0xA4B, 0xA4D), (0xA51, 0xA51), (0xA70, 0xA71),
      (0xA75, 0xA75), (0xA81, 0xA82), (0xABC, 0xABC), (0xAC1, 0xAC5), (0xAC7, 0xAC8), (0xACD, 0xACD),
      (0xAE2, 0xAE3), (0xAFA, 0xAFF), (0xB01, 0xB01), (0xB3C, 0xB3C), (0xB3F, 0xB3F), (0xB41, 0xB44),
      (0xB4D, 0xB4D), (0xB55, 0xB56), (0xB62, 0xB63), (0xB82, 0xB82), (0xBC0, 0xBC0), (0xBCD, 0xBCD),
      (0xC00, 0xC00), (0xC04, 0xC04), (0xC3C, 0xC3C), (0xC3E, 0xC40), (0xC46, 0xC48), (0xC4A, 0xC4D),
      (0xC55, 0xC56), (0xC62, 0xC63), (0xC81, 0xC81), (0xCBC, 0xCBC), (0xCBF, 0xCBF), (0xCC6, 0xCC6),
      (0xCCC, 0xCCD), (0xCE2, 0xCE3), (0xD00, 0xD01), (0xD3B, 0xD3C), (0xD41, 0xD44), (0xD4D, 0xD4D),
      (0xD62, 0xD63), (0xD81, 0xD81), (0xDCA, 0xDCA), (0xDD2, 0xDD4), (0xDD6, 0xDD6), (0xE31, 0xE31),
      (0xE34, 0xE3A), (0xE46, 0xE4E), (0xEB1, 0xEB1), (0xEB4, 0xEBC), (0xEC6, 0xEC6), (0xEC8, 0xECD),
      (0xF18, 0xF19), (0xF35, 0xF35), (0xF37, 0xF37), (0xF39, 0xF39), (0xF71, 0xF7E), (0xF80, 0xF84),
      (0xF86, 0xF87), (0xF8D, 0xF97), (0xF99, 0xFBC), (0xFC6, 0xFC6), (0x102D, 0x1030), (0x1032, 0x1037),
      (0x1039, 0x103A), (0x103D, 0x103E), (0x1058, 0x1059), (0x105E, 0x1060), (0x1071, 0x1074), (0x1082, 0x1082),
      (0x1085, 0x1086), (0x108D, 0x108D), (0x109D, 0x109D), (0x10FC, 0x10FC), (0x135D, 0x135F), (0x1712, 0x1714),
      (0x1732, 0x1733), (0x1752, 0x1753), (0x1772, 0x1773), (0x17B4, 0x17B5), (0x17B7, 0x17BD), (0x17C6, 0x17C6),
      (0x17C9, 0x17D3), (0x17D7, 0x17D7), (0x17DD, 0x17DD), (0x180B, 0x180F), (0x1843, 0x1843), (0x1885, 0x1886),
      (0x18A9, 0x18A9), (0x1920, 0x1922), (0x1927, 0x1928), (0x1932, 0x1932), (0x1939, 0x193B), (0x1A17, 0x1A18),
      (0x1A1B, 0x1A1B), (0x1A56, 0x1A56), (0x1A58, 0x1A5E), (0x1A60, 0x1A60), (0x1A62, 0x1A62), (0x1A65, 0x1A6C),
      (0x1A73, 0x1A7C), (0x1A7F, 0x1A7F), (0x1AA7, 0x1AA7), (0x1AB0, 0x1ACE), (0x1B00, 0x1B03), (0x1B34, 0x1B34),
      (0x1B36, 0x1B3A), (0x1B3C, 0x1B3C), (0x1B42, 0x1B42), (0x1B6B, 0x1B73), (0x1B80, 0x1B81), (0x1BA2, 0x1BA5),
      (0x1BA8, 0x1BA9), (0x1BAB, 0x1BAD), (0x1BE6, 0x1BE6), (0x1BE8, 0x1BE9), (0x1BED, 0x1BED), (0x1BEF, 0x1BF1),
      (0x1C2C, 0x1C33), (0x1C36, 0x1C37), (0x1C78, 0x1C7D), (0x1CD0, 0x1CD2), (0x1CD4, 0x1CE0), (0x1CE2, 0x1CE8),
      (0x1CED, 0x1CED), (0x1CF4, 0x1CF4), (0x1CF8, 0x1CF9), (0x1D2C, 0x1D6A), (0x1D78, 0x1D78), (0x1D9B, 0x1DFF),
      (0x1FBD, 0x1FBD), (0x1FBF, 0x1FC1), (0x1FCD, 0x1FCF), (0x1FDD, 0x1FDF), (0x1FED, 0x1FEF), (0x1FFD, 0x1FFE),
      (0x200B, 0x200F), (0x2018, 0x2019), (0x2024, 0x2024), (0x2027, 0x2027), (0x202A, 0x202E), (0x2060, 0x2064),
      (0x2066, 0x206F), (0x2071, 0x2071), (0x207F, 0x207F), (0x2090, 0x209C), (0x20D0, 0x20F0), (0x2C7C, 0x2C7D),
      (0x2CEF, 0x2CF1), (0x2D6F, 0x2D6F), (0x2D7F, 0x2D7F), (0x2DE0, 0x2DFF), (0x2E2F, 0x2E2F), (0x3005, 0x3005),
      (0x302A, 0x302D), (0x3031, 0x3035), (0x303B, 0x303B), (0x3099, 0x309E), (0x30FC, 0x30FE), (0xA015, 0xA015),
      (0xA4F8, 0xA4FD), (0xA60C, 0xA60C), (0xA66F, 0xA672), (0xA674, 0xA67D), (0xA67F, 0xA67F), (0xA69C, 0xA69F),
      (0xA6F0, 0xA6F1), (0xA700, 0xA721), (0xA770, 0xA770), (0xA788, 0xA78A), (0xA7F2, 0xA7F4), (0xA7F8, 0xA7F9),
      (0xA802, 0xA802), (0xA806, 0xA806), (0xA80B, 0xA80B), (0xA825, 0xA826), (0xA82C, 0xA82C), (0xA8C4, 0xA8C5),
      (0xA8E0, 0xA8F1), (0xA8FF, 0xA8FF), (0xA926, 0xA92D), (0xA947, 0xA951), (0xA980, 0xA982), (0xA9B3, 0xA9B3),
      (0xA9B6, 0xA9B9), (0xA9BC, 0xA9BD), (0xA9CF, 0xA9CF), (0xA9E5, 0xA9E6), (0xAA29, 0xAA2E), (0xAA31, 0xAA32),
      (0xAA35, 0xAA36), (0xAA43, 0xAA43), (0xAA4C, 0xAA4C), (0xAA70, 0xAA70), (0xAA7C, 0xAA7C), (0xAAB0, 0xAAB0),
      (0xAAB2, 0xAAB4), (0xAAB7, 0xAAB8), (0xAABE, 0xAABF), (0xAAC1, 0xAAC1), (0xAADD, 0xAADD), (0xAAEC, 0xAAED),
      (0xAAF3, 0xAAF4), (0xAAF6, 0xAAF6), (0xAB5B, 0xAB5F), (0xAB69, 0xAB6B), (0xABE5, 0xABE5), (0xABE8, 0xABE8),
      (0xABED, 0xABED), (0xFB1E, 0xFB1E), (0xFBB2, 0xFBC2), (0xFE00, 0xFE0F), (0xFE13, 0xFE13), (0xFE20, 0xFE2F),
      (0xFE52, 0xFE52), (0xFE55, 0xFE55), (0xFEFF, 0xFEFF), (0xFF07, 0xFF07), (0xFF0E, 0xFF0E), (0xFF1A, 0xFF1A),
      (0xFF3E, 0xFF3E), (0xFF40, 0xFF40), (0xFF70, 0xFF70), (0xFF9E, 0xFF9F), (0xFFE3, 0xFFE3), (0xFFF9, 0xFFFB),
      (0x101FD, 0x101FD), (0x102E0, 0x102E0), (0x10376, 0x1037A), (0x10780, 0x10785), (0x10787, 0x107B0), (0x107B2, 0x107BA),
      (0x10A01, 0x10A03), (0x10A05, 0x10A06), (0x10A0C, 0x10A0F), (0x10A38, 0x10A3A), (0x10A3F, 0x10A3F), (0x10AE5, 0x10AE6),
      (0x10D24, 0x10D27), (0x10EAB, 0x10EAC), (0x10F46, 0x10F50), (0x10F82, 0x10F85), (0x11001, 0x11001), (0x11038, 0x11046),
      (0x11070, 0x11070), (0x11073, 0x11074), (0x1107F, 0x11081), (0x110B3, 0x110B6), (0x110B9, 0x110BA), (0x110BD, 0x110BD),
      (0x110C2, 0x110C2), (0x110CD, 0x110CD), (0x11100, 0x11102), (0x11127, 0x1112B), (0x1112D, 0x11134), (0x11173, 0x11173),
      (0x11180, 0x11181), (0x111B6, 0x111BE), (0x111C9, 0x111CC), (0x111CF, 0x111CF), (0x1122F, 0x11231), (0x11234, 0x11234),
      (0x11236, 0x11237), (0x1123E, 0x1123E), (0x112DF, 0x112DF), (0x112E3, 0x112EA), (0x11300, 0x11301), (0x1133B, 0x1133C),
      (0x11340, 0x11340), (0x11366, 0x1136C), (0x11370, 0x11374), (0x11438, 0x1143F), (0x11442, 0x11444), (0x11446, 0x11446),
      (0x1145E, 0x1145E), (0x114B3, 0x114B8), (0x114BA, 0x114BA), (0x114BF, 0x114C0), (0x114C2, 0x114C3), (0x115B2, 0x115B5),
      (0x115BC, 0x115BD), (0x115BF, 0x115C0), (0x115DC, 0x115DD), (0x11633, 0x1163A), (0x1163D, 0x1163D), (0x1163F, 0x11640),
      (0x116AB, 0x116AB), (0x116AD, 0x116AD), (0x116B0, 0x116B5), (0x116B7, 0x116B7), (0x1171D, 0x1171F), (0x11722, 0x11725),
      (0x11727, 0x1172B), (0x1182F, 0x11837), (0x11839, 0x1183A), (0x1193B, 0x1193C), (0x1193E, 0x1193E), (0x11943, 0x11943),
      (0x119D4, 0x119D7), (0x119DA, 0x119DB), (0x119E0, 0x119E0), (0x11A01, 0x11A0A), (0x11A33, 0x11A38), (0x11A3B, 0x11A3E),
      (0x11A47, 0x11A47), (0x11A51, 0x11A56), (0x11A59, 0x11A5B), (0x11A8A, 0x11A96), (0x11A98, 0x11A99), (0x11C30, 0x11C36),
      (0x11C38, 0x11C3D), (0x11C3F, 0x11C3F), (0x11C92, 0x11CA7), (0x11CAA, 0x11CB0), (0x11CB2, 0x11CB3), (0x11CB5, 0x11CB6),
      (0x11D31, 0x11D36), (0x11D3A, 0x11D3A), (0x11D3C, 0x11D3D), (0x11D3F, 0x11D45), (0x11D47, 0x11D47), (0x11D90, 0x11D91),
      (0x11D95, 0x11D95), (0x11D97, 0x11D97), (0x11EF3, 0x11EF4), (0x13430, 0x13438), (0x16AF0, 0x16AF4), (0x16B30, 0x16B36),
      (0x16B40, 0x16B43), (0x16F4F, 0x16F4F), (0x16F8F, 0x16F9F), (0x16FE0, 0x16FE1), (0x16FE3, 0x16FE4), (0x1AFF0, 0x1AFF3),
      (0x1AFF5, 0x1AFFB), (0x1AFFD, 0x1AFFE), (0x1BC9D, 0x1BC9E), (0x1BCA0, 0x1BCA3), (0x1CF00, 0x1CF2D), (0x1CF30, 0x1CF46),
      (0x1D167, 0x1D169), (0x1D173, 0x1D182), (0x1D185, 0x1D18B), (0x1D1AA, 0x1D1AD), (0x1D242, 0x1D244), (0x1DA00, 0x1DA36),
      (0x1DA3B, 0x1DA6C), (0x1DA75, 0x1DA75), (0x1DA84, 0x1DA84), (0x1DA9B, 0x1DA9F), (0x1DAA1, 0x1DAAF), (0x1E000, 0x1E006),
      (0x1E008, 0x1E018), (0x1E01B, 0x1E021), (0x1E023, 0x1E024), (0x1E026, 0x1E02A), (0x1E130, 0x1E13D), (0x1E2AE, 0x1E2AE),
      (0x1E2EC, 0x1E2EF), (0x1E8D0, 0x1E8D6), (0x1E944, 0x1E94B), (0x1F3FB, 0x1F3FF), (0xE0001, 0xE0001), (0xE0020, 0xE007F),
      (0xE0100, 0xE01EF)]"

definition in_ranges :: "(nat \<times> nat) list \<Rightarrow> nat \<Rightarrow> bool" where
  "in_ranges t c = list_ex (\<lambda>(lo, hi). lo \<le> c \<and> c \<le> hi) t"

definition is_cased :: "nat \<Rightarrow> bool" where
  "is_cased c = in_ranges cased_table c"

definition is_case_ignorable :: "nat \<Rightarrow> bool" where
  "is_case_ignorable c = in_ranges case_ignorable_table c"

text \<open>
  The capital sigma U+03A3 at position \<open>i\<close> becomes the final sigma U+03C2 when the
  nearest code point before it that is not case-ignorable is cased and the nearest such
  code point after it, if there is one, is not; otherwise it becomes U+03C3.
\<close>

definition handle_capital_sigma :: "pystr \<Rightarrow> nat \<Rightarrow> nat" where
  "handle_capital_sigma s i =
     (let before = dropWhile is_case_ignorable (rev (take i s));
          after = dropWhile is_case_ignorable (drop (Suc i) s);
          cased_before = (case before of [] \<Rightarrow> False | c # _ \<Rightarrow> is_cased c);
          cased_after = (case after of [] \<Rightarrow> False | c # _ \<Rightarrow> is_cased c)
      in if cased_before \<and> \<not> cased_after then 0x3C2 else 0x3C3)"

definition lower_ucs4 :: "pystr \<Rightarrow> nat \<Rightarrow> pystr" where
  "lower_ucs4 s i = (if s ! i = 0x3A3 then [handle_capital_sigma s i] else to_lower_full (s ! i))"

definition lower :: "pystr \<Rightarrow> pystr" where
  "lower s = concat (map (lower_ucs4 s) [0..<length s])"

text \<open>\<^verbatim>\<open>str(i)\<close> for a natural number: its decimal digits.\<close>

fun str_nat :: "nat \<Rightarrow> pystr" where
  "str_nat n = (if n < 10 then [48 + n] else str_nat (n div 10) @ [48 + n mod 10])"

declare str_nat.simps [simp del]

text \<open>
  The values \<^verbatim>\<open>r.get(key, default)\<close> returns in \<^verbatim>\<open>rows_from_df\<close>: a cell, which is a
  \<^verbatim>\<open>str\<close> (the frame is read with \<^verbatim>\<open>dtype=str\<close> and \<^verbatim>\<open>fillna("")\<close>); the default,
  which is \<^verbatim>\<open>""\<close> or \<^verbatim>\<open>True\<close>; or, when the label occurs more than once in the frame, the
  sub-series of the row's cells under that label. \<open>Series i label vs\<close> is the sub-series
  with the cells \<open>vs\<close> of the row with index \<open>i\<close>.
\<close>

datatype pyval = Str pystr | Bool bool | Series nat pystr "pystr list"

text \<open>
  \<^verbatim>\<open>str(x)\<close>. The text of a series is produced by the formatter of pandas, under its
  display options; pandas is not part of the repository, and the formatter is the
  parameter \<open>series_str\<close> of the model.
\<close>

type_synonym series_str = "nat \<Rightarrow> pystr \<Rightarrow> pystr list \<Rightarrow> pystr"

fun py_str :: "series_str \<Rightarrow> pyval \<Rightarrow> pystr" where
  "py_str S (Str s) = s"
| "py_str S (Bool b) = (if b then ascii ''True'' else ascii ''False'')"
| "py_str S (Series i label vs) = S i label vs"


section \<open>core/excel.py\<close>



text \<open>The two check marks of \<^verbatim>\<open>_TRUTHY\<close> are U+2713 and U+2714.\<close>

definition TRUTHY :: "pystr set" where
  "TRUTHY = {ascii ''1'', ascii ''y'', ascii ''yes'', ascii ''true'', ascii ''t'', ascii ''x'',
             [0x2713], [0x2714], ascii ''ok''}"

definition to_bool :: "series_str \<Rightarrow> pyval \<Rightarrow> bool" where
  "to_bool S x \<longleftrightarrow> lower (strip (py_str S x)) \<in> TRUTHY"






record row =
  from_name :: pystr
  spec_id :: pystr
  config_name :: pystr
  spec_week :: pystr
  gg :: bool
  change_variants :: "pystr list"

















section \<open>core/util.py\<close>

text \<open>
  A \<^verbatim>\<open>pathlib.Path\<close> as its parent folder and its final component (its name);
  \<^verbatim>\<open>folder / name\<close> is \<open>joinpath\<close>. The stem and the suffix of a name are cut at its
  last dot, when that dot is neither the first nor the last character.
\<close>

record path =
  parent :: pystr
  name :: pystr

definition joinpath :: "pystr \<Rightarrow> pystr \<Rightarrow> path" where
  "joinpath folder nm = \<lparr>parent = folder, name = nm\<rparr>"

text \<open>\<^verbatim>\<open>s.rfind(c)\<close>: the last index of \<open>c\<close> in \<open>s\<close>, or \<open>-1\<close>.\<close>

definition rfind :: "pystr \<Rightarrow> nat \<Rightarrow> int" where
  "rfind s c = (case filter (\<lambda>i. s ! i = c) (rev [0..<length s]) of [] \<Rightarrow> - 1 | i # _ \<Rightarrow> int i)"

definition suffix :: "pystr \<Rightarrow> pystr" where
  "suffix nm = (let i = rfind nm 46 in if 0 < i \<and> i < int (length nm) - 1 then drop (nat i) nm else [])"

definition stem :: "pystr \<Rightarrow> pystr" where
  "stem nm = (let i = rfind nm 46 in if 0 < i \<and> i < int (length nm) - 1 then take (nat i) nm else nm)"

text \<open>The candidate \<^verbatim>\<open>folder / f"{stem}({i}){ext}"\<close>.\<close>

definition numbered :: "pystr \<Rightarrow> pystr \<Rightarrow> pystr \<Rightarrow> nat \<Rightarrow> path" where
  "numbered folder st ext i = joinpath folder (st @ ascii ''('' @ str_nat i @ ascii '')'' @ ext)"

text \<open>
  The loop of \<^verbatim>\<open>unique_filename\<close>. The file system is the list \<open>fs\<close> of the paths
  that exist, so \<^verbatim>\<open>candidate.exists()\<close> is \<open>candidate \<in> set fs\<close>. The loop ends because
  only finitely many numbered candidates exist.
\<close>

function unique_loop :: "path list \<Rightarrow> pystr \<Rightarrow> pystr \<Rightarrow> pystr \<Rightarrow> path \<Rightarrow> nat \<Rightarrow> path" where
  "unique_loop fs folder st ext candidate i =
     (if candidate \<in> set fs
      then unique_loop fs folder st ext (numbered folder st ext i) (i + 1)
      else candidate)"
  by pat_completeness auto
termination
proof (relation "measure (\<lambda>(fs, folder, st, ext, candidate, i).
          2 * card {j. i \<le> j \<and> numbered folder st ext j \<in> set fs} +
          (if candidate \<in> set fs then 1 else 0))", goal_cases)
  case 1
  show ?case by simp
next
  case (2 fs folder st ext candidate i)
  let ?P = "\<lambda>j. numbered folder st ext j \<in> set fs"
  have digits: "foldl (\<lambda>a d. 10 * a + (d - 48)) 0 (str_nat n) = n" for n
  proof (induction n rule: str_nat.induct)
    case (1 n)
    show ?case
    proof (cases "n < 10")
      case True
      then show ?thesis by (subst str_nat.simps) simp
    next
      case False
      with 1 show ?thesis by (subst str_nat.simps) simp
    qed
  qed
  have "inj str_nat"
    by (rule inj_on_inverseI [where g = "foldl (\<lambda>a d. 10 * a + (d - 48)) 0"]) (rule digits)
  then have inj: "inj (numbered folder st ext)"
    by (auto simp: inj_on_def numbered_def joinpath_def)
  have fin: "finite {j. Suc i \<le> j \<and> ?P j}"
  proof (rule finite_subset)
    show "{j. Suc i \<le> j \<and> ?P j} \<subseteq> numbered folder st ext -` set fs" by auto
    show "finite (numbered folder st ext -` set fs)"
      using inj by (simp add: finite_vimageI)
  qed
  have split: "{j. i \<le> j \<and> ?P j} =
      (if ?P i then insert i {j. Suc i \<le> j \<and> ?P j} else {j. Suc i \<le> j \<and> ?P j})"
    by (auto simp: Suc_le_eq le_less)
  show ?case
    using 2 fin by (simp add: split)
qed

declare unique_loop.simps [simp del]

definition unique_filename :: "path list \<Rightarrow> path \<Rightarrow> path" where
  "unique_filename fs p =
     (let folder = parent p; st = stem (name p); ext = suffix (name p);
          candidate = joinpath folder (name p)
      in unique_loop fs folder st ext candidate 1)"

text \<open>The paths of the \<^verbatim>\<open>unique_filename\<close> example.\<close>

definition report :: path where
  "report = \<lparr>parent = ascii ''downloads'', name = ascii ''report.dctzip''\<rparr>"

definition report1 :: path where
  "report1 = \<lparr>parent = ascii ''downloads'', name = ascii ''report(1).dctzip''\<rparr>"

definition report2 :: path where
  "report2 = \<lparr>parent = ascii ''downloads'', name = ascii ''report(2).dctzip''\<rparr>"

section \<open>Coroutines\<close>

text \<open>
  The exceptions the pipeline distinguishes: \<^verbatim>\<open>httpx.HTTPStatusError\<close> with the status code
  of its response (the response of such an error is always present), \<^verbatim>\<open>ValueError\<close>,
  and every other exception.
\<close>

datatype exn = HTTPStatusError nat | ValueError pystr | OtherError pystr

type_synonym pydict = "(pystr \<times> pystr) list"

text \<open>
  The client \<^verbatim>\<open>AsyncAuth.new_client\<close> builds: the headers and cookies it was given. Its
  timeouts, redirect policy and TLS setting do not depend on the credentials.
\<close>

record client =
  client_headers :: pydict
  client_cookies :: pydict

text \<open>
  The four operations of \<^verbatim>\<open>core/async_ops.py\<close> that \<^verbatim>\<open>process_file\<close> awaits, with
  their keyword arguments other than \<^verbatim>\<open>client\<close>. That module is not part of the sources;
  what an operation returns is decided by the environment, and its values are of an
  arbitrary type \<open>'v\<close>.
\<close>

datatype 'v call =
    fetch_singlespec_cache_by_specid_async "row list"
  | post_search_async 'v 'v bool
  | poll_until_done_async 'v
  | download_out_async 'v pystr

text \<open>The calls of \<^verbatim>\<open>ConsoleBoard\<close>: \<^verbatim>\<open>set_progress\<close>, \<^verbatim>\<open>fail\<close>, \<^verbatim>\<open>complete\<close>.\<close>

datatype board_event = Progress pystr nat | Fail pystr | Complete pystr

text \<open>
  An \<^verbatim>\<open>async\<close> function is a tree of its effects. A synchronous effect runs at once;
  the last four constructors are the \<^verbatim>\<open>await\<close>s at which the event loop suspends the
  coroutine, and the continuation takes what the awaited operation returns or raises.
  \<^item> \<open>BoardCall\<close>: a call of the console board for a line;
  \<^item> \<open>PerfCounter\<close>: \<^verbatim>\<open>time.perf_counter()\<close>;
  \<^item> \<open>LoadHeaders\<close>, \<open>LoadCookies\<close>: reading \<^verbatim>\<open>self._headers\<close>, \<^verbatim>\<open>self._cookies\<close>;
  \<^item> \<open>StoreCookies\<close>, \<open>StoreHeaders\<close>: assigning them;
  \<^item> \<open>SemaRelease\<close>: \<^verbatim>\<open>SEMA.release()\<close>;
  \<^item> \<open>SemaAcquire\<close>: \<^verbatim>\<open>await SEMA.acquire()\<close>;
  \<^item> \<open>ToThreadReadRows\<close>: \<^verbatim>\<open>await asyncio.to_thread(read_rows_from_excel, xlsx)\<close>;
  \<^item> \<open>ToThreadLogin\<close>: \<^verbatim>\<open>await asyncio.to_thread(_login)\<close>;
  \<^item> \<open>Call\<close>: \<^verbatim>\<open>await call(**kw)\<close> for one of the four operations.
\<close>

datatype ('v, 'a) coro =
    Return 'a
  | Raise exn
  | BoardCall nat board_event "('v, 'a) coro"
  | PerfCounter "real \<Rightarrow> ('v, 'a) coro"
  | LoadHeaders "pydict option \<Rightarrow> ('v, 'a) coro"
  | LoadCookies "pydict option \<Rightarrow> ('v, 'a) coro"
  | StoreCookies pydict "('v, 'a) coro"
  | StoreHeaders pydict "('v, 'a) coro"
  | SemaRelease "('v, 'a) coro"
  | SemaAcquire "('v, 'a) coro"
  | ToThreadReadRows path "exn + row list \<Rightarrow> ('v, 'a) coro"
  | ToThreadLogin "exn + pydict \<times> pydict \<Rightarrow> ('v, 'a) coro"
  | Call "'v call" client "exn + 'v \<Rightarrow> ('v, 'a) coro"

text \<open>Sequencing: \<open>bind m f\<close> runs \<open>m\<close> and then \<open>f\<close> on its result; an exception of \<open>m\<close> propagates.\<close>

primrec bind :: "('v, 'a) coro \<Rightarrow> ('a \<Rightarrow> ('v, 'b) coro) \<Rightarrow> ('v, 'b) coro" where
  "bind (Return a) f = f a"
| "bind (Raise e) f = Raise e"
| "bind (BoardCall i ev k) f = BoardCall i ev (bind k f)"
| "bind (PerfCounter k) f = PerfCounter (\<lambda>t. bind (k t) f)"
| "bind (LoadHeaders k) f = LoadHeaders (\<lambda>h. bind (k h) f)"
| "bind (LoadCookies k) f = LoadCookies (\<lambda>c. bind (k c) f)"
| "bind (StoreCookies c k) f = StoreCookies c (bind k f)"
| "bind (StoreHeaders h k) f = StoreHeaders h (bind k f)"
| "bind (SemaRelease k) f = SemaRelease (bind k f)"
| "bind (SemaAcquire k) f = SemaAcquire (bind k f)"
| "bind (ToThreadReadRows p k) f = ToThreadReadRows p (\<lambda>r. bind (k r) f)"
| "bind (ToThreadLogin k) f = ToThreadLogin (\<lambda>r. bind (k r) f)"
| "bind (Call c cl k) f = Call c cl (\<lambda>r. bind (k r) f)"

text \<open>\<^verbatim>\<open>try: m except e: h e\<close>.\<close>

primrec try_except :: "('v, 'a) coro \<Rightarrow> (exn \<Rightarrow> ('v, 'a) coro) \<Rightarrow> ('v, 'a) coro" where
  "try_except (Return a) h = Return a"
| "try_except (Raise e) h = h e"
| "try_except (BoardCall i ev k) h = BoardCall i ev (try_except k h)"
| "try_except (PerfCounter k) h = PerfCounter (\<lambda>t. try_except (k t) h)"
| "try_except (LoadHeaders k) h = LoadHeaders (\<lambda>x. try_except (k x) h)"
| "try_except (LoadCookies k) h = LoadCookies (\<lambda>x. try_except (k x) h)"
| "try_except (StoreCookies c k) h = StoreCookies c (try_except k h)"
| "try_except (StoreHeaders x k) h = StoreHeaders x (try_except k h)"
| "try_except (SemaRelease k) h = SemaRelease (try_except k h)"
| "try_except (SemaAcquire k) h = SemaAcquire (try_except k h)"
| "try_except (ToThreadReadRows p k) h = ToThreadReadRows p (\<lambda>r. try_except (k r) h)"
| "try_except (ToThreadLogin k) h = ToThreadLogin (\<lambda>r. try_except (k r) h)"
| "try_except (Call c cl k) h = Call c cl (\<lambda>r. try_except (k r) h)"

text \<open>
  \<^verbatim>\<open>try: m finally: ...\<close>: however \<open>m\<close> ends, \<open>fin\<close> is put in front of its
  result or exception.
\<close>

primrec try_finally :: "('v, 'a) coro \<Rightarrow> (('v, 'a) coro \<Rightarrow> ('v, 'a) coro) \<Rightarrow> ('v, 'a) coro" where
  "try_finally (Return a) fin = fin (Return a)"
| "try_finally (Raise e) fin = fin (Raise e)"
| "try_finally (BoardCall i ev k) fin = BoardCall i ev (try_finally k fin)"
| "try_finally (PerfCounter k) fin = PerfCounter (\<lambda>t. try_finally (k t) fin)"
| "try_finally (LoadHeaders k) fin = LoadHeaders (\<lambda>x. try_finally (k x) fin)"
| "try_finally (LoadCookies k) fin = LoadCookies (\<lambda>x. try_finally (k x) fin)"
| "try_finally (StoreCookies c k) fin = StoreCookies c (try_finally k fin)"
| "try_finally (StoreHeaders x k) fin = StoreHeaders x (try_finally k fin)"
| "try_finally (SemaRelease k) fin = SemaRelease (try_finally k fin)"
| "try_finally (SemaAcquire k) fin = SemaAcquire (try_finally k fin)"
| "try_finally (ToThreadReadRows p k) fin = ToThreadReadRows p (\<lambda>r. try_finally (k r) fin)"
| "try_finally (ToThreadLogin k) fin = ToThreadLogin (\<lambda>r. try_finally (k r) fin)"
| "try_finally (Call c cl k) fin = Call c cl (\<lambda>r. try_finally (k r) fin)"

section \<open>The state of the event loop\<close>

text \<open>
  What \<^verbatim>\<open>process_file\<close> takes from \<^verbatim>\<open>core/async_ops.py\<close> and \<^verbatim>\<open>config.py\<close> without
  awaiting: the result of \<^verbatim>\<open>read_vms_filter()\<close>, the function
  \<^verbatim>\<open>build_single_spec_items_from_original_rows\<close>, and \<^verbatim>\<open>_fmt\<close>, which formats a
  floating-point duration. They are parameters of the model.
\<close>

record 'v deps =
  read_vms_filter :: "exn + 'v"
  build_single_spec_items_from_original_rows :: "row list \<Rightarrow> 'v \<Rightarrow> exn + 'v"
  fmt :: "real \<Rightarrow> pystr"

text \<open>
  What a coroutine hands to the outside when it suspends: an operation invoked with a
  client (recorded with the credentials the store holds at that moment), a login started,
  a file read started.
\<close>

datatype 'v io =
    Invoked "'v call" client "pydict option" "pydict option"
  | LoginStarted
  | ReadStarted path

text \<open>
  The state shared by the coroutines of one event loop: the two fields of \<^verbatim>\<open>AsyncAuth\<close>,
  the value of the semaphore \<^verbatim>\<open>SEMA\<close>, the number of lines of the \<^verbatim>\<open>ConsoleBoard\<close> and
  the calls it has received, and the clock. Two more fields record what the claims speak
  about and the program does not store: \<open>holders\<close>, the workers that have acquired the
  semaphore and not yet released it, and \<open>io_log\<close>, what each worker has handed to the
  outside, in order.
\<close>

record 'v world =
  auth_cookies :: "pydict option"
  auth_headers :: "pydict option"
  sema_value :: nat
  board_lines :: nat
  board_log :: "(nat \<times> board_event) list"
  clock :: real
  holders :: "nat list"
  io_log :: "(nat \<times> 'v io) list"

text \<open>
  \<^verbatim>\<open>core/console_board.py\<close>: a call for a line the board does not have does nothing;
  \<^verbatim>\<open>set_progress\<close> clamps the percentage to \<open>0..100\<close>.
\<close>

definition board_apply :: "nat \<Rightarrow> board_event \<Rightarrow> 'v world \<Rightarrow> 'v world" where
  "board_apply i ev w =
     (if i < board_lines w
      then w\<lparr>board_log := board_log w @
             [(i, case ev of Progress text percent \<Rightarrow> Progress text (max 0 (min 100 percent)) | _ \<Rightarrow> ev)]\<rparr>
      else w)"

text \<open>
  The coroutine \<open>i\<close> runs from where it is to its next \<^verbatim>\<open>await\<close>, or to its end: no other
  coroutine runs in between.
\<close>

primrec run_sync :: "nat \<Rightarrow> ('v, 'a) coro \<Rightarrow> 'v world \<Rightarrow> ('v, 'a) coro \<times> 'v world" where
  "run_sync i (Return a) w = (Return a, w)"
| "run_sync i (Raise e) w = (Raise e, w)"
| "run_sync i (BoardCall l ev k) w = run_sync i k (board_apply l ev w)"
| "run_sync i (PerfCounter k) w = run_sync i (k (clock w)) w"
| "run_sync i (LoadHeaders k) w = run_sync i (k (auth_headers w)) w"
| "run_sync i (LoadCookies k) w = run_sync i (k (auth_cookies w)) w"
| "run_sync i (StoreCookies c k) w = run_sync i k (w\<lparr>auth_cookies := Some c\<rparr>)"
| "run_sync i (StoreHeaders h k) w = run_sync i k (w\<lparr>auth_headers := Some h\<rparr>)"
| "run_sync i (SemaRelease k) w =
     run_sync i k (w\<lparr>sema_value := sema_value w + 1, holders := remove1 i (holders w)\<rparr>)"
| "run_sync i (SemaAcquire k) w = (SemaAcquire k, w)"
| "run_sync i (ToThreadReadRows p k) w =
     (ToThreadReadRows p k, w\<lparr>io_log := io_log w @ [(i, ReadStarted p)]\<rparr>)"
| "run_sync i (ToThreadLogin k) w = (ToThreadLogin k, w\<lparr>io_log := io_log w @ [(i, LoginStarted)]\<rparr>)"
| "run_sync i (Call c cl k) w =
     (Call c cl k, w\<lparr>io_log := io_log w @ [(i, Invoked c cl (auth_cookies w) (auth_headers w))]\<rparr>)"

section \<open>The credential store and the worker\<close>

definition set_progress :: "nat \<Rightarrow> pystr \<Rightarrow> nat \<Rightarrow> ('v, 'a) coro \<Rightarrow> ('v, 'a) coro" where
  "set_progress i text percent k = BoardCall i (Progress text percent) k"

definition board_fail :: "nat \<Rightarrow> pystr \<Rightarrow> ('v, 'a) coro \<Rightarrow> ('v, 'a) coro" where
  "board_fail i text k = BoardCall i (Fail text) k"

definition board_complete :: "nat \<Rightarrow> pystr \<Rightarrow> ('v, 'a) coro \<Rightarrow> ('v, 'a) coro" where
  "board_complete i text k = BoardCall i (Complete text) k"

text \<open>
  \<^verbatim>\<open>AsyncAuth.refresh\<close>: the login runs in a thread and is awaited; then, under the lock
  (which no other code takes), \<^verbatim>\<open>self._cookies, self._headers = cookies, headers\<close>
  assigns the cookies and then the headers. \<open>store_bundle\<close> is what follows the \<^verbatim>\<open>await\<close>.
\<close>

definition store_bundle :: "exn + pydict \<times> pydict \<Rightarrow> ('v, unit) coro" where
  "store_bundle r =
     (case r of
        Inl e \<Rightarrow> Raise e
      | Inr (cookies, headers) \<Rightarrow> StoreCookies cookies (StoreHeaders headers (Return ())))"

definition refresh :: "('v, unit) coro" where
  "refresh = ToThreadLogin store_bundle"

text \<open>\<^verbatim>\<open>d or {}\<close>.\<close>

definition or_empty :: "pydict option \<Rightarrow> pydict" where
  "or_empty d = (case d of None \<Rightarrow> [] | Some x \<Rightarrow> x)"

text \<open>
  \<^verbatim>\<open>AsyncAuth.new_client\<close> evaluates \<^verbatim>\<open>self._headers or {}\<close> and then
  \<^verbatim>\<open>self._cookies or {}\<close>, without taking the lock.
\<close>

definition new_client :: "('v, client) coro" where
  "new_client =
     LoadHeaders (\<lambda>h. LoadCookies (\<lambda>c.
       Return \<lparr>client_headers = or_empty h, client_cookies = or_empty c\<rparr>))"

text \<open>\<^verbatim>\<open>await call(**kw)\<close> with \<^verbatim>\<open>kw["client"] = cl\<close>.\<close>

definition await_call :: "'v call \<Rightarrow> client \<Rightarrow> ('v, 'v) coro" where
  "await_call call cl = Call call cl (\<lambda>r. case r of Inl e \<Rightarrow> Raise e | Inr v \<Rightarrow> Return v)"

text \<open>
  The helper \<^verbatim>\<open>with_auth_retry\<close> of \<^verbatim>\<open>process_file\<close>. The \<^verbatim>\<open>except\<close> clause takes an
  \<^verbatim>\<open>httpx.HTTPStatusError\<close> only; the code after the status test is outside the \<^verbatim>\<open>try\<close>.
\<close>

definition with_auth_retry :: "nat \<Rightarrow> pystr \<Rightarrow> 'v call \<Rightarrow> client \<Rightarrow> ('v, 'v) coro" where
  "with_auth_retry line_idx tag call cl =
     try_except (await_call call cl)
       (\<lambda>e. case e of
          HTTPStatusError status \<Rightarrow>
            if status \<notin> {401, 403, 419} then Raise e
            else set_progress line_idx (tag @ ascii '' Refreshing auth'' @ [0x2026]) 20
                   (bind refresh (\<lambda>_. bind new_client (\<lambda>c2. await_call call c2)))
        | _ \<Rightarrow> Raise e)"

text \<open>\<^verbatim>\<open>async with SEMA: body\<close>.\<close>

definition async_with_SEMA :: "('v, 'a) coro \<Rightarrow> ('v, 'a) coro" where
  "async_with_SEMA body = SemaAcquire (try_finally body SemaRelease)"

definition process_file :: "'v deps \<Rightarrow> path \<Rightarrow> nat \<Rightarrow> ('v, real) coro" where
  "process_file deps xlsx line_idx =
     (let tag = ascii ''['' @ stem (name xlsx) @ ascii '']'' in
      PerfCounter (\<lambda>t0.
      async_with_SEMA
       (set_progress line_idx (tag @ ascii '' Reading specs'') 5
       (ToThreadReadRows xlsx (\<lambda>r. case r of Inl e \<Rightarrow> Raise e | Inr rows \<Rightarrow>
        if rows = []
        then board_fail line_idx (tag @ ascii '' No rows found'')
               (Raise (ValueError (ascii ''No rows found in Excel'')))
        else
        (case read_vms_filter deps of Inl e \<Rightarrow> Raise e | Inr vms \<Rightarrow>
         set_progress line_idx (tag @ ascii '' Authenticating'') 15
         (bind new_client (\<lambda>cl.
          set_progress line_idx (tag @ ascii '' Fetching single spec'') 25
          (bind (with_auth_retry line_idx tag (fetch_singlespec_cache_by_specid_async rows) cl) (\<lambda>ss_cache.
           set_progress line_idx (tag @ ascii '' Building DCT'') 40
           (case build_single_spec_items_from_original_rows deps rows ss_cache of Inl e \<Rightarrow> Raise e | Inr items \<Rightarrow>
            set_progress line_idx (tag @ ascii '' Posting /search'') 45
            (bind (with_auth_retry line_idx tag (post_search_async items vms False) cl) (\<lambda>job_id.
             set_progress line_idx (tag @ ascii '' Polling'') 55
             (bind (with_auth_retry line_idx tag (poll_until_done_async job_id) cl) (\<lambda>done_url.
              set_progress line_idx (tag @ ascii '' Downloading'') 80
              (let out_name = stem (name xlsx) @ ascii ''.dctzip'' in
               bind (with_auth_retry line_idx tag (download_out_async done_url out_name) cl) (\<lambda>_.
               PerfCounter (\<lambda>t1.
               let dt = t1 - t0 in
               board_complete line_idx (tag @ ascii '' DONE '' @ [0x2713] @ ascii '' ('' @ fmt deps dt @ ascii '')'')
                 (Return dt)))))))))))))))))))"

section \<open>The event loop\<close>

text \<open>What resumes a suspended coroutine: the semaphore granted, or the awaited result.\<close>

datatype 'v response =
    Granted
  | RowsRead "exn + row list"
  | LoggedIn "exn + pydict \<times> pydict"
  | Responded "exn + 'v"

fun resume :: "'v response \<Rightarrow> ('v, 'a) coro \<Rightarrow> ('v, 'a) coro option" where
  "resume Granted (SemaAcquire k) = Some k"
| "resume (RowsRead r) (ToThreadReadRows p k) = Some (k r)"
| "resume (LoggedIn r) (ToThreadLogin k) = Some (k r)"
| "resume (Responded r) (Call c cl k) = Some (k r)"
| "resume _ _ = None"

text \<open>One turn of the loop: at time \<open>ev_time\<close> the coroutine \<open>worker\<close> is resumed with \<open>resp\<close>.\<close>

record 'v event =
  worker :: nat
  ev_time :: real
  resp :: "'v response"

record ('v, 'a) system =
  sys_world :: "'v world"
  tasks :: "('v, 'a) coro list"

text \<open>The semaphore is granted only while its value is positive, and is decremented.\<close>

fun grant :: "nat \<Rightarrow> 'v response \<Rightarrow> 'v world \<Rightarrow> 'v world option" where
  "grant i Granted w =
     (if sema_value w = 0 then None
      else Some (w\<lparr>sema_value := sema_value w - 1, holders := i # holders w\<rparr>))"
| "grant i _ w = Some w"

text \<open>
  A turn is possible when the worker exists, the clock does not go back, the worker is
  suspended at an \<^verbatim>\<open>await\<close> of the kind of the response, and the semaphore can be granted.
  The worker then runs to its next \<^verbatim>\<open>await\<close>.
\<close>

definition step :: "'v event \<Rightarrow> ('v, 'a) system \<Rightarrow> ('v, 'a) system option" where
  "step ev s =
     (let i = worker ev in
      if i \<ge> length (tasks s) \<or> ev_time ev < clock (sys_world s) then None
      else
        case resume (resp ev) (tasks s ! i) of
          None \<Rightarrow> None
        | Some k \<Rightarrow>
            (case grant i (resp ev) ((sys_world s)\<lparr>clock := ev_time ev\<rparr>) of
               None \<Rightarrow> None
             | Some w \<Rightarrow>
                 (case run_sync i k w of
                    (k', w') \<Rightarrow> Some \<lparr>sys_world = w', tasks = (tasks s)[i := k']\<rparr>)))"

fun run :: "'v event list \<Rightarrow> ('v, 'a) system \<Rightarrow> ('v, 'a) system option" where
  "run [] s = Some s"
| "run (ev # evs) s = (case step ev s of None \<Rightarrow> None | Some s' \<Rightarrow> run evs s')"

text \<open>\<^verbatim>\<open>asyncio.gather\<close> starts the tasks in order; each runs to its first \<^verbatim>\<open>await\<close>.\<close>

fun start_tasks :: "nat \<Rightarrow> ('v, 'a) coro list \<Rightarrow> 'v world \<Rightarrow> ('v, 'a) coro list \<times> 'v world" where
  "start_tasks i [] w = ([], w)"
| "start_tasks i (t # ts) w =
     (case run_sync i t w of
        (t', w') \<Rightarrow> (case start_tasks (i + 1) ts w' of (ts', w'') \<Rightarrow> (t' # ts', w'')))"

definition start :: "('v, 'a) coro list \<Rightarrow> 'v world \<Rightarrow> ('v, 'a) system" where
  "start ts w = (case start_tasks 0 ts w of (ts', w') \<Rightarrow> \<lparr>sys_world = w', tasks = ts'\<rparr>)"

fun outcome :: "('v, 'a) coro \<Rightarrow> (exn + 'a) option" where
  "outcome (Return a) = Some (Inr a)"
| "outcome (Raise e) = Some (Inl e)"
| "outcome _ = None"

text \<open>
  \<^verbatim>\<open>asyncio.gather(*tasks, return_exceptions=True)\<close> under the schedule \<open>evs\<close>: the
  result or the exception of every task, in the order of the tasks, once all have ended.
  \<open>None\<close>: the schedule has a turn that is not possible, or leaves a task suspended.
\<close>

definition gather :: "('v, 'a) coro list \<Rightarrow> 'v world \<Rightarrow> 'v event list \<Rightarrow> ((exn + 'a) list \<times> 'v world) option" where
  "gather ts w evs =
     (case run evs (start ts w) of
        None \<Rightarrow> None
      | Some s \<Rightarrow>
          if list_all (\<lambda>t. outcome t \<noteq> None) (tasks s)
          then Some (List.map_filter outcome (tasks s), sys_world s)
          else None)"

text \<open>The loop of \<^verbatim>\<open>run_pipeline\<close> over the results.\<close>

fun tally :: "(exn + real) list \<Rightarrow> nat \<Rightarrow> real list \<Rightarrow> nat \<times> real list" where
  "tally [] failures durations = (failures, durations)"
| "tally (res # rest) failures durations =
     (case res of
        Inl e \<Rightarrow> tally rest (failures + 1) durations
      | Inr x \<Rightarrow> tally rest failures (durations @ [x]))"

text \<open>\<^verbatim>\<open>config.py\<close>: \<^verbatim>\<open>SEMA = asyncio.Semaphore(5)\<close>.\<close>

definition SEMA :: nat where
  "SEMA = 5"

definition initial_world :: "real \<Rightarrow> 'v world" where
  "initial_world t =
     \<lparr>auth_cookies = None, auth_headers = None, sema_value = SEMA, board_lines = 0,
      board_log = [], clock = t, holders = [], io_log = []\<rparr>"

definition workers :: "'v deps \<Rightarrow> path list \<Rightarrow> ('v, real) coro list" where
  "workers deps files = map (\<lambda>(i, f). process_file deps f i) (enumerate 0 files)"

text \<open>
  \<^verbatim>\<open>run_pipeline\<close>, started at time \<open>t\<close>, where the first login returns or raises
  \<open>login\<close> and the event loop then takes the turns \<open>evs\<close>. The result is what
  \<^verbatim>\<open>run_pipeline\<close> returns (\<open>Inr\<close>) or raises (\<open>Inl\<close>), with the final state. The main
  coroutine has the number \<open>length files\<close>, which is no worker's.
\<close>

definition run_pipeline ::
  "'v deps \<Rightarrow> path list \<Rightarrow> real \<Rightarrow> exn + pydict \<times> pydict \<Rightarrow> 'v event list \<Rightarrow>
     ((exn + nat \<times> real list \<times> real) \<times> 'v world) option" where
  "run_pipeline deps files t login evs =
     (let main = length files in
      case run_sync main (store_bundle login) (snd (run_sync main refresh (initial_world t))) of
        (Raise e, w) \<Rightarrow> Some (Inl e, w)
      | (Return _, w) \<Rightarrow>
          (let w1 = board_apply 0 (Progress (ascii ''Initial authentication'') 10)
                      (w\<lparr>board_lines := length files\<rparr>);
               t_start = clock w1
           in case gather (workers deps files) w1 evs of
                None \<Rightarrow> None
              | Some (results, w2) \<Rightarrow>
                  (let total_time = clock w2 - t_start;
                       (failures, durations) = tally (map snd (zip files results)) 0 []
                   in Some (Inr (failures, durations, total_time), w2)))
      | _ \<Rightarrow> None)"

text \<open>The state in which \<^verbatim>\<open>run_pipeline\<close> launches the workers, after a first login that returned.\<close>

definition launch_world :: "nat \<Rightarrow> real \<Rightarrow> pydict \<Rightarrow> pydict \<Rightarrow> 'v world" where
  "launch_world n t c h =
     board_apply 0 (Progress (ascii ''Initial authentication'') 10)
       ((initial_world t)\<lparr>io_log := [(n, LoginStarted)], auth_cookies := Some c,
                           auth_headers := Some h, board_lines := n\<rparr>)"

section \<open>Predicates on coroutines and states\<close>

text \<open>
  \<open>gate t h\<close>: on every path of \<open>t\<close> the semaphore is acquired only when it is not held
  and released only when it is held, and \<open>t\<close> ends without holding it; \<open>h\<close> says whether
  it is held where \<open>t\<close> starts. \<open>nogate t\<close>: \<open>t\<close> neither acquires nor releases.
\<close>

primrec gate :: "('v, 'a) coro \<Rightarrow> bool \<Rightarrow> bool" where
  "gate (Return a) h = (\<not> h)"
| "gate (Raise e) h = (\<not> h)"
| "gate (BoardCall i ev k) h = gate k h"
| "gate (PerfCounter k) h = (\<forall>t. gate (k t) h)"
| "gate (LoadHeaders k) h = (\<forall>x. gate (k x) h)"
| "gate (LoadCookies k) h = (\<forall>x. gate (k x) h)"
| "gate (StoreCookies c k) h = gate k h"
| "gate (StoreHeaders x k) h = gate k h"
| "gate (SemaRelease k) h = (h \<and> gate k False)"
| "gate (SemaAcquire k) h = (\<not> h \<and> gate k True)"
| "gate (ToThreadReadRows p k) h = (\<forall>r. gate (k r) h)"
| "gate (ToThreadLogin k) h = (\<forall>r. gate (k r) h)"
| "gate (Call c cl k) h = (\<forall>r. gate (k r) h)"

primrec nogate :: "('v, 'a) coro \<Rightarrow> bool" where
  "nogate (Return a) = True"
| "nogate (Raise e) = True"
| "nogate (BoardCall i ev k) = nogate k"
| "nogate (PerfCounter k) = (\<forall>t. nogate (k t))"
| "nogate (LoadHeaders k) = (\<forall>x. nogate (k x))"
| "nogate (LoadCookies k) = (\<forall>x. nogate (k x))"
| "nogate (StoreCookies c k) = nogate k"
| "nogate (StoreHeaders x k) = nogate k"
| "nogate (SemaRelease k) = False"
| "nogate (SemaAcquire k) = False"
| "nogate (ToThreadReadRows p k) = (\<forall>r. nogate (k r))"
| "nogate (ToThreadLogin k) = (\<forall>r. nogate (k r))"
| "nogate (Call c cl k) = (\<forall>r. nogate (k r))"

text \<open>A coroutine as the event loop finds it: ended, or suspended at an \<^verbatim>\<open>await\<close>.\<close>

fun settled :: "('v, 'a) coro \<Rightarrow> bool" where
  "settled (Return a) = True"
| "settled (Raise e) = True"
| "settled (SemaAcquire k) = True"
| "settled (ToThreadReadRows p k) = True"
| "settled (ToThreadLogin k) = True"
| "settled (Call c cl k) = True"
| "settled _ = False"

definition ginv :: "('v, 'a) system \<Rightarrow> bool" where
  "ginv s \<longleftrightarrow>
     distinct (holders (sys_world s)) \<and>
     sema_value (sys_world s) + length (holders (sys_world s)) = SEMA \<and>
     (\<forall>i < length (tasks s). gate (tasks s ! i) (i \<in> set (holders (sys_world s))) \<and> settled (tasks s ! i)) \<and>
     (\<forall>i \<in> set (holders (sys_world s)). i < length (tasks s))"

text \<open>\<open>finishes i ts s\<close>: from \<open>s\<close> some turns end the task \<open>i\<close> and leave the other tasks as in \<open>ts\<close>.\<close>

definition finishes :: "nat \<Rightarrow> ('v, 'a) coro list \<Rightarrow> ('v, 'a) system \<Rightarrow> bool" where
  "finishes i ts s \<longleftrightarrow>
     (\<exists>evs s'. run evs s = Some s' \<and> outcome (tasks s' ! i) \<noteq> None \<and>
        length (tasks s') = length ts \<and> (\<forall>j. j \<noteq> i \<longrightarrow> tasks s' ! j = ts ! j))"

definition unfinished :: "('v, 'a) system \<Rightarrow> nat set" where
  "unfinished s = {i. i < length (tasks s) \<and> outcome (tasks s ! i) = None}"

section \<open>Assertions on interleaved coroutines\<close>

text \<open>
  To show that something holds in every state the workers can reach, each worker is given
  four assertions:
  \<^item> \<open>inv\<close>, which holds of the shared state whenever the worker is suspended or has ended;
  \<^item> \<open>rely\<close>, how the other workers may have changed the state while it was suspended;
  \<^item> \<open>guar\<close>, how it may have changed the state when it suspends again or ends;
  \<^item> \<open>okr\<close>, the responses it may be resumed with.
\<close>

record 'v rg =
  inv :: "'v world \<Rightarrow> bool"
  rely :: "'v world \<Rightarrow> 'v world \<Rightarrow> bool"
  guar :: "'v world \<Rightarrow> 'v world \<Rightarrow> bool"
  okr :: "'v response \<Rightarrow> bool"

text \<open>The state \<open>w2\<close> in which a worker suspended in \<open>w\<close> may be resumed at time \<open>t\<close>.\<close>

definition resumed :: "'v rg \<Rightarrow> 'v world \<Rightarrow> 'v world \<Rightarrow> real \<Rightarrow> bool" where
  "resumed S w w2 t \<longleftrightarrow> rely S w w2 \<and> inv S w2 \<and> clock w2 \<le> t"

text \<open>
  \<open>wp i S t K w0 w\<close>: when the worker \<open>i\<close> runs \<open>t\<close> from the state \<open>w\<close>, having been
  resumed in \<open>w0\<close>, then at every \<^verbatim>\<open>await\<close> it has kept \<open>guar\<close> and \<open>inv\<close> holds, and, however
  the others change the state within \<open>rely\<close> at each \<^verbatim>\<open>await\<close>, \<open>K\<close> holds of its result,
  the state of its last resumption and its last state. The clauses follow \<open>run_sync\<close>,
  \<open>resume\<close> and \<open>grant\<close>.
\<close>

primrec wp ::
  "nat \<Rightarrow> 'v rg \<Rightarrow> ('v, 'a) coro \<Rightarrow> ((exn + 'a) \<Rightarrow> 'v world \<Rightarrow> 'v world \<Rightarrow> bool) \<Rightarrow>
     'v world \<Rightarrow> 'v world \<Rightarrow> bool" where
  "wp i S (Return a) K w0 w = K (Inr a) w0 w"
| "wp i S (Raise e) K w0 w = K (Inl e) w0 w"
| "wp i S (BoardCall l ev k) K w0 w = wp i S k K w0 (board_apply l ev w)"
| "wp i S (PerfCounter k) K w0 w = wp i S (k (clock w)) K w0 w"
| "wp i S (LoadHeaders k) K w0 w = wp i S (k (auth_headers w)) K w0 w"
| "wp i S (LoadCookies k) K w0 w = wp i S (k (auth_cookies w)) K w0 w"
| "wp i S (StoreCookies c k) K w0 w = wp i S k K w0 (w\<lparr>auth_cookies := Some c\<rparr>)"
| "wp i S (StoreHeaders h k) K w0 w = wp i S k K w0 (w\<lparr>auth_headers := Some h\<rparr>)"
| "wp i S (SemaRelease k) K w0 w =
     wp i S k K w0 (w\<lparr>sema_value := sema_value w + 1, holders := remove1 i (holders w)\<rparr>)"
| "wp i S (SemaAcquire k) K w0 w =
     (guar S w0 w \<and> inv S w \<and>
      (\<forall>w2 t. resumed S w w2 t \<and> 0 < sema_value w2 \<longrightarrow>
         wp i S k K w2 (w2\<lparr>clock := t, sema_value := sema_value w2 - 1, holders := i # holders w2\<rparr>)))"
| "wp i S (ToThreadReadRows p k) K w0 w =
     (guar S w0 (w\<lparr>io_log := io_log w @ [(i, ReadStarted p)]\<rparr>) \<and>
      inv S (w\<lparr>io_log := io_log w @ [(i, ReadStarted p)]\<rparr>) \<and>
      (\<forall>r w2 t. okr S (RowsRead r) \<and> resumed S (w\<lparr>io_log := io_log w @ [(i, ReadStarted p)]\<rparr>) w2 t \<longrightarrow>
         wp i S (k r) K w2 (w2\<lparr>clock := t\<rparr>)))"
| "wp i S (ToThreadLogin k) K w0 w =
     (guar S w0 (w\<lparr>io_log := io_log w @ [(i, LoginStarted)]\<rparr>) \<and>
      inv S (w\<lparr>io_log := io_log w @ [(i, LoginStarted)]\<rparr>) \<and>
      (\<forall>r w2 t. okr S (LoggedIn r) \<and> resumed S (w\<lparr>io_log := io_log w @ [(i, LoginStarted)]\<rparr>) w2 t \<longrightarrow>
         wp i S (k r) K w2 (w2\<lparr>clock := t\<rparr>)))"
| "wp i S (Call c cl k) K w0 w =
     (guar S w0 (w\<lparr>io_log := io_log w @ [(i, Invoked c cl (auth_cookies w) (auth_headers w))]\<rparr>) \<and>
      inv S (w\<lparr>io_log := io_log w @ [(i, Invoked c cl (auth_cookies w) (auth_headers w))]\<rparr>) \<and>
      (\<forall>r w2 t. okr S (Responded r) \<and>
          resumed S (w\<lparr>io_log := io_log w @ [(i, Invoked c cl (auth_cookies w) (auth_headers w))]\<rparr>) w2 t \<longrightarrow>
         wp i S (k r) K w2 (w2\<lparr>clock := t\<rparr>)))"

text \<open>What is asked of a worker when it ends.\<close>

definition final :: "'v rg \<Rightarrow> (exn + 'a) \<Rightarrow> 'v world \<Rightarrow> 'v world \<Rightarrow> bool" where
  "final S r w0 w \<longleftrightarrow> guar S w0 w \<and> inv S w"

text \<open>\<open>hold i S t w\<close>: the worker \<open>i\<close>, suspended as \<open>t\<close> in the state \<open>w\<close>, will keep to \<open>S\<close>.\<close>

fun hold :: "nat \<Rightarrow> 'v rg \<Rightarrow> ('v, 'a) coro \<Rightarrow> 'v world \<Rightarrow> bool" where
  "hold i S (Return a) w = True"
| "hold i S (Raise e) w = True"
| "hold i S (SemaAcquire k) w =
     (\<forall>w2 t. resumed S w w2 t \<and> 0 < sema_value w2 \<longrightarrow>
        wp i S k (final S) w2 (w2\<lparr>clock := t, sema_value := sema_value w2 - 1, holders := i # holders w2\<rparr>))"
| "hold i S (ToThreadReadRows p k) w =
     (\<forall>r w2 t. okr S (RowsRead r) \<and> resumed S w w2 t \<longrightarrow> wp i S (k r) (final S) w2 (w2\<lparr>clock := t\<rparr>))"
| "hold i S (ToThreadLogin k) w =
     (\<forall>r w2 t. okr S (LoggedIn r) \<and> resumed S w w2 t \<longrightarrow> wp i S (k r) (final S) w2 (w2\<lparr>clock := t\<rparr>))"
| "hold i S (Call c cl k) w =
     (\<forall>r w2 t. okr S (Responded r) \<and> resumed S w w2 t \<longrightarrow> wp i S (k r) (final S) w2 (w2\<lparr>clock := t\<rparr>))"
| "hold i S _ w = False"

text \<open>\<open>init i S t w\<close>: the worker \<open>i\<close>, not yet started, will keep to \<open>S\<close> when it runs \<open>t\<close>.\<close>

definition init :: "nat \<Rightarrow> 'v rg \<Rightarrow> ('v, 'a) coro \<Rightarrow> 'v world \<Rightarrow> bool" where
  "init i S t w \<longleftrightarrow> (\<forall>w2. rely S w w2 \<and> inv S w2 \<longrightarrow> wp i S t (final S) w2 w2)"

text \<open>
  The assertions of \<open>n\<close> workers fit together: every \<open>rely\<close> is reflexive and transitive,
  what one worker guarantees every other relies on, and \<open>inv\<close> is kept by \<open>rely\<close>.
\<close>

definition rg_family :: "(nat \<Rightarrow> 'v rg) \<Rightarrow> nat \<Rightarrow> bool" where
  "rg_family S n \<longleftrightarrow>
     (\<forall>i<n. \<forall>w. rely (S i) w w) \<and>
     (\<forall>i<n. \<forall>a b c. rely (S i) a b \<and> rely (S i) b c \<longrightarrow> rely (S i) a c) \<and>
     (\<forall>i<n. \<forall>j<n. i \<noteq> j \<longrightarrow> (\<forall>a b. guar (S i) a b \<longrightarrow> rely (S j) a b)) \<and>
     (\<forall>j<n. \<forall>a b. inv (S j) a \<and> rely (S j) a b \<longrightarrow> inv (S j) b)"

definition sysinv :: "(nat \<Rightarrow> 'v rg) \<Rightarrow> ('v, 'a) system \<Rightarrow> bool" where
  "sysinv S s \<longleftrightarrow>
     (\<forall>j<length (tasks s). inv (S j) (sys_world s) \<and> hold j (S j) (tasks s ! j) (sys_world s))"

section \<open>Whole credential bundles\<close>

text \<open>
  A credential bundle is the pair of the cookies and the headers of \<^verbatim>\<open>AsyncAuth\<close>, and
  \<open>client_of b\<close> is the client \<^verbatim>\<open>new_client\<close> builds when the store holds \<open>b\<close>.
\<close>

type_synonym creds = "pydict option \<times> pydict option"

definition client_of :: "creds \<Rightarrow> client" where
  "client_of b = \<lparr>client_headers = or_empty (snd b), client_cookies = or_empty (fst b)\<rparr>"

text \<open>
  For a set \<open>B\<close> of bundles: an invocation is \<open>whole\<close> when the store held a bundle of
  \<open>B\<close> at that moment and the client was built from a bundle of \<open>B\<close>; a state is
  \<open>unmixed\<close> when the store holds a bundle of \<open>B\<close> and every invocation so far is whole;
  a response \<open>delivers\<close> \<open>B\<close> when the cookies and headers of a login that returned are a
  bundle of \<open>B\<close>.
\<close>

fun whole :: "creds set \<Rightarrow> 'v io \<Rightarrow> bool" where
  "whole B (Invoked c cl cookies headers) = ((cookies, headers) \<in> B \<and> cl \<in> client_of ` B)"
| "whole B _ = True"

definition unmixed :: "creds set \<Rightarrow> 'v world \<Rightarrow> bool" where
  "unmixed B w \<longleftrightarrow>
     (auth_cookies w, auth_headers w) \<in> B \<and> list_all (\<lambda>e. whole B (snd e)) (io_log w)"

fun delivers :: "creds set \<Rightarrow> 'v response \<Rightarrow> bool" where
  "delivers B (LoggedIn (Inr (c, h))) = ((Some c, Some h) \<in> B)"
| "delivers B _ = True"

definition unmixed_rg :: "creds set \<Rightarrow> 'v rg" where
  "unmixed_rg B = \<lparr>inv = unmixed B, rely = (\<lambda>a b. unmixed B a \<longrightarrow> unmixed B b),
           guar = (\<lambda>a b. unmixed B a \<longrightarrow> unmixed B b), okr = delivers B\<rparr>"

text \<open>\<open>keeps i B t\<close>: run from an unmixed state, \<open>t\<close> leaves the state unmixed at every \<^verbatim>\<open>await\<close> and at its end.\<close>

definition keeps :: "nat \<Rightarrow> creds set \<Rightarrow> ('v, 'a) coro \<Rightarrow> bool" where
  "keeps i B t \<longleftrightarrow>
     (\<forall>K w0 w. unmixed B w \<and> (\<forall>r w0' w'. unmixed B w' \<longrightarrow> K r w0' w') \<longrightarrow> wp i (unmixed_rg B) t K w0 w)"

text \<open>The bundles the logins of a schedule return.\<close>

definition delivered :: "'v event list \<Rightarrow> creds list" where
  "delivered evs =
     List.map_filter
       (\<lambda>ev. case resp ev of LoggedIn (Inr (c, h)) \<Rightarrow> Some (Some c, Some h) | _ \<Rightarrow> None) evs"

section \<open>The percentages a task reports\<close>

text \<open>
  The percentage a call of the console board sets the bar of its line to:
  \<^verbatim>\<open>set_progress\<close> sets the percentage it is given, \<^verbatim>\<open>complete\<close> sets 100, and \<^verbatim>\<open>fail\<close>
  leaves the bar where it is. \<open>percents i w\<close> are the percentages reported for the line
  \<open>i\<close> so far, and \<open>task_percents i w0 w\<close> those reported since the state \<open>w0\<close>, in which
  \<^verbatim>\<open>run_pipeline\<close> launches the workers (it has reported 10 for the line 0 before).
\<close>

fun percent_of :: "board_event \<Rightarrow> nat option" where
  "percent_of (Progress text percent) = Some percent"
| "percent_of (Complete text) = Some 100"
| "percent_of (Fail text) = None"

definition percents :: "nat \<Rightarrow> 'v world \<Rightarrow> nat list" where
  "percents i w = List.map_filter (\<lambda>e. if fst e = i then percent_of (snd e) else None) (board_log w)"

definition task_percents :: "nat \<Rightarrow> 'v world \<Rightarrow> 'v world \<Rightarrow> nat list" where
  "task_percents i w0 w = drop (length (percents i w0)) (percents i w)"

text \<open>The logins the worker \<open>i\<close> has started: one for each of its auth retries.\<close>

fun is_login :: "'v io \<Rightarrow> bool" where
  "is_login LoginStarted = True"
| "is_login _ = False"

definition logins :: "nat \<Rightarrow> 'v world \<Rightarrow> nat" where
  "logins i w = length (filter (\<lambda>e. fst e = i \<and> is_login (snd e)) (io_log w))"

text \<open>The percentages of the stages of \<^verbatim>\<open>process_file\<close>, in the order of the stages.\<close>

definition skeleton :: "nat list" where
  "skeleton = [5, 15, 25, 40, 45, 55, 80, 100]"

text \<open>
  \<open>well_reported ps m\<close>: leaving out every 20, \<open>ps\<close> is an initial segment of the
  percentages of the stages; every 20 comes directly after a 25, 45, 55 or 80; and there
  are \<open>m\<close> of them.
\<close>

definition well_reported :: "nat list \<Rightarrow> nat \<Rightarrow> bool" where
  "well_reported ps m \<longleftrightarrow>
     filter (\<lambda>p. p \<noteq> 20) ps = take (length (filter (\<lambda>p. p \<noteq> 20) ps)) skeleton \<and>
     (\<forall>k<length ps. ps ! k = 20 \<longrightarrow> 0 < k \<and> ps ! (k - 1) \<in> {25, 45, 55, 80}) \<and>
     length (filter (\<lambda>p. p = 20) ps) = m"

text \<open>
  What the worker \<open>i\<close> keeps true of its line of the board, whatever the other workers
  do to theirs; \<open>pre i\<close> are the percentages of the line when the workers are launched.
  \<open>got_to pre i k q w0 w\<close>: the worker has reported \<open>k\<close> stages, and \<open>q\<close> last unless \<open>q\<close> is
  20; \<open>advances pre i k q t\<close>: from there, \<open>t\<close> reports as it should.
\<close>

definition pobs :: "nat \<Rightarrow> 'v world \<Rightarrow> nat list \<times> nat \<times> nat" where
  "pobs i w = (percents i w, logins i w, board_lines w)"

definition progress_rg :: "(nat \<Rightarrow> nat list) \<Rightarrow> nat \<Rightarrow> 'v rg" where
  "progress_rg pre i =
     \<lparr>inv = (\<lambda>w. i < board_lines w \<and> (\<exists>ps. percents i w = pre i @ ps \<and> well_reported ps (logins i w))),
      rely = (\<lambda>a b. pobs i b = pobs i a),
      guar = (\<lambda>a b. \<forall>j. j \<noteq> i \<longrightarrow> pobs j b = pobs j a),
      okr = (\<lambda>r. True)\<rparr>"

definition got_to :: "(nat \<Rightarrow> nat list) \<Rightarrow> nat \<Rightarrow> nat \<Rightarrow> nat \<Rightarrow> 'v world \<Rightarrow> 'v world \<Rightarrow> bool" where
  "got_to pre i k q w0 w \<longleftrightarrow>
     (\<forall>j. j \<noteq> i \<longrightarrow> pobs j w = pobs j w0) \<and> i < board_lines w \<and>
     (\<exists>ps. percents i w = pre i @ ps \<and> well_reported ps (logins i w) \<and>
           filter (\<lambda>p. p \<noteq> 20) ps = take k skeleton \<and> (q \<noteq> 20 \<longrightarrow> ps \<noteq> [] \<and> last ps = q))"

definition advances :: "(nat \<Rightarrow> nat list) \<Rightarrow> nat \<Rightarrow> nat \<Rightarrow> nat \<Rightarrow> ('v, 'a) coro \<Rightarrow> bool" where
  "advances pre i k q t \<longleftrightarrow>
     (\<forall>K w0 w. got_to pre i k q w0 w \<and> (\<forall>r w0' w'. (\<exists>k' q'. got_to pre i k' q' w0' w') \<longrightarrow> K r w0' w') \<longrightarrow>
        wp i (progress_rg pre i) t K w0 w)"

section \<open>What a run of the retry wrapper may look like\<close>

text \<open>The failures for which \<^verbatim>\<open>with_auth_retry\<close> refreshes: the statuses 401, 403, 419.\<close>

fun auth_status :: "exn \<Rightarrow> bool" where
  "auth_status (HTTPStatusError status) = (status \<in> {401, 403, 419})"
| "auth_status _ = False"

text \<open>
  The runs of the wrapper, by what the environment answers, with the result of the
  wrapper so far (\<open>None\<close> while it is suspended) and what it has handed to the outside.
  \<^item> Nothing answered yet: the operation has been invoked once, with the client given.
  \<^item> The invocation returns: its value is the result.
  \<^item> It fails otherwise than by 401, 403 or 419: its exception is the result.
  \<^item> It fails by 401, 403 or 419: a login is started.
  \<^item> The login raises: its exception is the result; the operation is not invoked again.
  \<^item> The login returns: the operation is invoked once more, with the client of the
    returned cookies and headers, which are the credentials then stored.
  \<^item> That invocation returns or raises: this is the result.
  \<^item> Nothing else is a run: no further login, no third invocation.
\<close>

fun expected_retry ::
  "'v call \<Rightarrow> client \<Rightarrow> pydict option \<Rightarrow> pydict option \<Rightarrow> 'v response list \<Rightarrow>
     ((exn + 'v) option \<times> 'v io list) option" where
  "expected_retry call cl c0 h0 [] = Some (None, [Invoked call cl c0 h0])"
| "expected_retry call cl c0 h0 [Responded (Inr v)] = Some (Some (Inr v), [Invoked call cl c0 h0])"
| "expected_retry call cl c0 h0 [Responded (Inl e)] =
     (if auth_status e then Some (None, [Invoked call cl c0 h0, LoginStarted])
      else Some (Some (Inl e), [Invoked call cl c0 h0]))"
| "expected_retry call cl c0 h0 [Responded (Inl e), LoggedIn (Inl e')] =
     (if auth_status e then Some (Some (Inl e'), [Invoked call cl c0 h0, LoginStarted]) else None)"
| "expected_retry call cl c0 h0 [Responded (Inl e), LoggedIn (Inr (c, h))] =
     (if auth_status e
      then Some (None, [Invoked call cl c0 h0, LoginStarted,
                        Invoked call \<lparr>client_headers = h, client_cookies = c\<rparr> (Some c) (Some h)])
      else None)"
| "expected_retry call cl c0 h0 [Responded (Inl e), LoggedIn (Inr (c, h)), Responded r] =
     (if auth_status e
      then Some (Some r, [Invoked call cl c0 h0, LoginStarted,
                          Invoked call \<lparr>client_headers = h, client_cookies = c\<rparr> (Some c) (Some h)])
      else None)"
| "expected_retry call cl c0 h0 _ = None"

fun is_invoked :: "'v io \<Rightarrow> bool" where
  "is_invoked (Invoked c cl cookies headers) = True"
| "is_invoked _ = False"

section \<open>Example runs\<close>

text \<open>
  Dependencies, two files, a row and schedules for the examples. The values of the remote
  operations are natural numbers here.
\<close>

definition deps0 :: "nat deps" where
  "deps0 = \<lparr>read_vms_filter = Inr 0, build_single_spec_items_from_original_rows = (\<lambda>rows c. Inr (c + 1)), fmt = (\<lambda>t. ascii ''t'')\<rparr>"

definition row0 :: row where
  "row0 = \<lparr>from_name = [], spec_id = ascii ''S'', config_name = ascii ''S'', spec_week = [], gg = True, change_variants = []\<rparr>"

definition f1 :: path where "f1 = \<lparr>parent = ascii ''xml_bucket'', name = ascii ''a.xlsx''\<rparr>"
definition f2 :: path where "f2 = \<lparr>parent = ascii ''xml_bucket'', name = ascii ''b.xlsx''\<rparr>"

definition turn :: "nat \<Rightarrow> real \<Rightarrow> 'v response \<Rightarrow> 'v event" where
  "turn i t r = \<lparr>worker = i, ev_time = t, resp = r\<rparr>"

definition evs_two :: "nat event list" where
  "evs_two = [turn 0 1 Granted, turn 1 1 Granted, turn 0 2 (RowsRead (Inr [])),
     turn 1 3 (RowsRead (Inr [row0])), turn 1 4 (Responded (Inr 7)), turn 1 5 (Responded (Inr 8)),
     turn 1 6 (Responded (Inr 9)), turn 1 7 (Responded (Inr 10))]"

definition cl0 :: client where
  "cl0 = \<lparr>client_headers = [], client_cookies = []\<rparr>"

text \<open>
  A schedule for two files: the first operation of worker 0 fails with 401 and the worker
  starts a login; worker 1 builds its client and invokes its first operation while the
  login is under way; then the login returns and worker 0 retries.
\<close>

definition evs_refresh :: "nat event list" where
  "evs_refresh =
     [turn 0 1 Granted, turn 1 1 Granted, turn 0 2 (RowsRead (Inr [row0])),
      turn 0 3 (Responded (Inl (HTTPStatusError 401))), turn 1 4 (RowsRead (Inr [row0])),
      turn 0 5 (LoggedIn (Inr ([(ascii ''sid'', ascii ''2'')], [(ascii ''token'', ascii ''b'')])))]"

text \<open>
  Schedules for two files in which the first operation of worker 1 fails with 401: up to
  the login the worker then starts, and on to its second operation.
\<close>

definition evs_retry :: "nat event list" where
  "evs_retry =
     [turn 1 1 Granted, turn 1 2 (RowsRead (Inr [row0])),
      turn 1 3 (Responded (Inl (HTTPStatusError 401)))]"

definition evs_retry_on :: "nat event list" where
  "evs_retry_on =
     evs_retry @ [turn 1 4 (LoggedIn (Inr ([(ascii ''sid'', ascii ''2'')], []))), turn 1 5 (Responded (Inr 7))]"

section \<open>Row extraction\<close>



lemma ascii_eq_iff [simp]: "ascii a = ascii b \<longleftrightarrow> a = b"
  unfolding ascii_def by (simp add: inj_map_eq_map inj_on_def)

lemma ascii_Nil [simp]: "ascii [] = []"
  by (simp add: ascii_def)

lemma strip_Nil [simp]: "strip [] = []"
  by (simp add: strip_def)

lemma lower_Nil [simp]: "lower [] = []"
  by (simp add: lower_def)

lemma to_lower_full_ascii:
  assumes "c < 128"
  shows "to_lower_full c = [if 65 \<le> c \<and> c \<le> 90 then c + 32 else c]"
proof -
  let ?P = "\<lambda>(lo, hi, step, img). lo \<le> c \<and> c \<le> hi \<and> (c - lo) mod step = 0"
  have "find ?P lower_table = (if 65 \<le> c \<and> c \<le> 90 then Some (0x41, 0x5A, 1, 0x61) else None)"
    using assms by (simp add: lower_table_def)
  with assms show ?thesis
    by (simp add: to_lower_full_def)
qed

lemma lower_ascii:
  assumes "\<forall>c \<in> set s. c < 128"
  shows "lower s = map (\<lambda>c. if 65 \<le> c \<and> c \<le> 90 then c + 32 else c) s"
proof -
  have "lower_ucs4 s i = [if 65 \<le> s ! i \<and> s ! i \<le> 90 then s ! i + 32 else s ! i]"
    if "i < length s" for i
  proof -
    from that assms have "s ! i < 128" by simp
    then show ?thesis
      by (simp add: lower_ucs4_def to_lower_full_ascii)
  qed
  then have "map (lower_ucs4 s) [0..<length s] =
      map (\<lambda>i. [if 65 \<le> s ! i \<and> s ! i \<le> 90 then s ! i + 32 else s ! i]) [0..<length s]"
    by simp
  also have "\<dots> = map (\<lambda>c. [if 65 \<le> c \<and> c \<le> 90 then c + 32 else c]) (map ((!) s) [0..<length s])"
    by simp
  also have "\<dots> = map (\<lambda>c. [if 65 \<le> c \<and> c \<le> 90 then c + 32 else c]) s"
    by (simp only: map_nth)
  finally show ?thesis
    by (simp add: lower_def concat_map_singleton)
qed

lemma to_bool_True [simp]: "to_bool S (Bool True)"
proof -
  have "strip (ascii ''True'') = ascii ''True''"
    by (simp add: strip_def isspace_def ascii_def)
  moreover have "lower (ascii ''True'') = ascii ''true''"
    by (subst lower_ascii) (simp_all add: ascii_def)
  ultimately show ?thesis
    by (simp add: to_bool_def TRUTHY_def)
qed






















section \<open>Unique file names\<close>


lemma unique_loop_fresh: "unique_loop fs folder st ext c i \<notin> set fs"
proof (induction fs folder st ext c i rule: unique_loop.induct)
  case (1 fs folder st ext candidate i)
  then show ?case by (subst unique_loop.simps) simp
qed

lemma unique_loop_least:
  "c \<in> set fs \<Longrightarrow>
   \<exists>k \<ge> i. unique_loop fs folder st ext c i = numbered folder st ext k \<and>
            (\<forall>j. i \<le> j \<and> j < k \<longrightarrow> numbered folder st ext j \<in> set fs)"
proof (induction fs folder st ext c i rule: unique_loop.induct)
  case (1 fs folder st ext candidate i)
  show ?case
  proof (cases "numbered folder st ext i \<in> set fs")
    case True
    from 1 True obtain k where k: "i + 1 \<le> k"
      "unique_loop fs folder st ext (numbered folder st ext i) (i + 1) = numbered folder st ext k"
      "\<forall>j. i + 1 \<le> j \<and> j < k \<longrightarrow> numbered folder st ext j \<in> set fs"
      by blast
    have "\<forall>j. i \<le> j \<and> j < k \<longrightarrow> numbered folder st ext j \<in> set fs"
    proof (intro allI impI)
      fix j assume "i \<le> j \<and> j < k"
      then have "j = i \<or> (i + 1 \<le> j \<and> j < k)" by auto
      with True k(3) show "numbered folder st ext j \<in> set fs" by blast
    qed
    with k 1(2) show ?thesis
      by (subst unique_loop.simps) (auto intro!: exI[of _ k])
  next
    case False
    have "unique_loop fs folder st ext (numbered folder st ext i) (i + 1) = numbered folder st ext i"
      using False by (subst unique_loop.simps) simp
    with 1(2) show ?thesis
      by (subst unique_loop.simps) (auto intro!: exI[of _ i])
  qed
qed

lemma joinpath_parent_name: "joinpath (parent p) (name p) = (p::path)"
  by (simp add: joinpath_def)

text \<open>
  C8. \<^verbatim>\<open>unique_filename\<close> never returns a path that exists. A requested path that does
  not exist is returned as it is; for one that exists the result is the numbered
  candidate with the least positive number whose path does not exist.
\<close>

theorem unique_filename_fresh_least:
  "unique_filename fs p \<notin> set fs \<and>
   (p \<notin> set fs \<longrightarrow> unique_filename fs p = p) \<and>
   (p \<in> set fs \<longrightarrow>
      (\<exists>k \<ge> 1. unique_filename fs p = numbered (parent p) (stem (name p)) (suffix (name p)) k \<and>
         (\<forall>j. 1 \<le> j \<and> j < k \<longrightarrow> numbered (parent p) (stem (name p)) (suffix (name p)) j \<in> set fs)))"
proof (intro conjI impI)
  show "unique_filename fs p \<notin> set fs"
    by (simp add: unique_filename_def Let_def unique_loop_fresh)
  show "unique_filename fs p = p" if "p \<notin> set fs"
    using that by (simp add: unique_filename_def Let_def joinpath_parent_name unique_loop.simps)
  show "\<exists>k \<ge> 1. unique_filename fs p = numbered (parent p) (stem (name p)) (suffix (name p)) k \<and>
         (\<forall>j. 1 \<le> j \<and> j < k \<longrightarrow> numbered (parent p) (stem (name p)) (suffix (name p)) j \<in> set fs)"
    if "p \<in> set fs"
    using that unique_loop_least [of p fs 1 "parent p" "stem (name p)" "suffix (name p)"]
    by (simp add: unique_filename_def Let_def joinpath_parent_name)
qed

lemma numbered_report:
  "numbered (parent report) (stem (name report)) (suffix (name report)) k =
     \<lparr>parent = ascii ''downloads'', name = ascii ''report('' @ str_nat k @ ascii '').dctzip''\<rparr>"
  by (simp add: numbered_def joinpath_def report_def stem_def suffix_def rfind_def ascii_def Let_def upt_rec)

lemma str_nat_small: "str_nat (Suc 0) = ascii ''1''" "str_nat 2 = ascii ''2''"
  by (subst str_nat.simps, simp add: ascii_def)+

theorem unique_filename_fresh_least_witness:
  "unique_filename [report] report = report1 \<and>
   unique_filename [report, report1] report = report2 \<and>
   unique_filename [report1] report = report"
proof -
  note T1 = unique_filename_fresh_least [of "[report]" report]
  note T2 = unique_filename_fresh_least [of "[report, report1]" report]
  note T3 = unique_filename_fresh_least [of "[report1]" report]
  have ne: "report \<noteq> report1" "report \<noteq> report2" "report1 \<noteq> report2"
    by (simp_all add: report_def report1_def report2_def ascii_def)
  have n1: "numbered (parent report) (stem (name report)) (suffix (name report)) 1 = report1"
    and n2: "numbered (parent report) (stem (name report)) (suffix (name report)) 2 = report2"
    by (simp_all add: numbered_report str_nat_small report1_def report2_def ascii_def)
  from T1 obtain k where k: "1 \<le> k"
      "unique_filename [report] report = numbered (parent report) (stem (name report)) (suffix (name report)) k"
      "\<forall>j. 1 \<le> j \<and> j < k \<longrightarrow> numbered (parent report) (stem (name report)) (suffix (name report)) j \<in> set [report]"
    by auto
  have "k = 1"
  proof (rule ccontr)
    assume "k \<noteq> 1"
    with k(1) have "1 \<le> (1::nat) \<and> 1 < k" by simp
    with k(3) n1 ne show False by (metis empty_iff empty_set set_ConsD)
  qed
  with k n1 have A: "unique_filename [report] report = report1" by simp
  from T2 obtain m where m: "1 \<le> m"
      "unique_filename [report, report1] report = numbered (parent report) (stem (name report)) (suffix (name report)) m"
      "\<forall>j. 1 \<le> j \<and> j < m \<longrightarrow> numbered (parent report) (stem (name report)) (suffix (name report)) j \<in> set [report, report1]"
    by auto
  from T2 have fresh: "unique_filename [report, report1] report \<notin> set [report, report1]" by blast
  have "m = 2"
  proof (rule ccontr)
    assume "m \<noteq> 2"
    then consider "m = 1" | "2 < m" using m(1) by linarith
    then show False
    proof cases
      case 1
      with m(2) n1 fresh show False by simp
    next
      case 2
      then have "1 \<le> (2::nat) \<and> 2 < m" by simp
      with m(3) n2 ne show False by (metis empty_iff empty_set set_ConsD)
    qed
  qed
  with m n2 have B: "unique_filename [report, report1] report = report2" by simp
  from T3 ne have C: "unique_filename [report1] report = report" by simp
  from A B C show ?thesis by blast
qed

section \<open>The coordinator\<close>

lemma run_pipeline_login_failed:
  "run_pipeline deps files t (Inl e) evs =
     Some (Inl e, (initial_world t)\<lparr>io_log := [(length files, LoginStarted)]\<rparr>)"
  by (simp add: run_pipeline_def refresh_def store_bundle_def initial_world_def Let_def)

lemma tally_count:
  "tally rs f ds = (f', ds') \<Longrightarrow> f' + length ds' = f + length ds + length rs"
  by (induction rs arbitrary: f ds) (auto split: sum.splits)

lemma tally_eq:
  "tally rs f ds = (f + length (filter isl rs), ds @ map projr (filter (\<lambda>r. \<not> isl r) rs))"
  by (induction rs arbitrary: f ds) (auto split: sum.splits)

lemma length_run_sync_start:
  "start_tasks i ts w = (ts', w') \<Longrightarrow> length ts' = length ts"
  by (induction ts arbitrary: i w ts' w') (auto split: prod.splits)

lemma step_length: "step ev s = Some s' \<Longrightarrow> length (tasks s') = length (tasks s)"
  by (auto simp: step_def Let_def split: if_splits option.splits prod.splits)

lemma step_others:
  "step ev s = Some s' \<Longrightarrow> j \<noteq> worker ev \<Longrightarrow> tasks s' ! j = tasks s ! j"
  by (auto simp: step_def Let_def split: if_splits option.splits prod.splits)

lemma run_length: "run evs s = Some s' \<Longrightarrow> length (tasks s') = length (tasks s)"
  by (induction evs arbitrary: s) (auto split: option.splits dest: step_length)

lemma length_map_filter_all:
  "list_all (\<lambda>x. f x \<noteq> None) xs \<Longrightarrow> length (List.map_filter f xs) = length xs"
  by (induction xs) (auto simp: List.map_filter_simps)

lemma start_length: "length (tasks (start ts w)) = length ts"
  by (auto simp: start_def split: prod.splits dest: length_run_sync_start)

lemma gather_length:
  "gather ts w evs = Some (results, w') \<Longrightarrow> length results = length ts"
  by (auto simp: gather_def length_map_filter_all start_length
           split: option.splits if_splits dest!: run_length)

lemma run_pipeline_launch:
  "run_pipeline (deps :: 'v deps) files t (Inr (c, h)) evs =
     map_option
       (\<lambda>(results, w2).
          (Inr (case tally (map snd (zip files results)) 0 [] of
                  (failures, durations) \<Rightarrow>
                    (failures, durations, clock w2 - clock (launch_world (length files) t c h :: 'v world))), w2))
       (gather (workers deps files) (launch_world (length files) t c h) evs)"
  by (simp add: run_pipeline_def refresh_def store_bundle_def Let_def launch_world_def initial_world_def
           split: option.splits prod.splits)

lemma run_pipeline_count:
  assumes "run_pipeline (deps :: 'v deps) files t (Inr b) evs = Some (res, w)"
  shows "\<exists>failures durations total_time.
           res = Inr (failures, durations, total_time) \<and> failures + length durations = length files"
proof -
  obtain c h where b: "b = (c, h)" by (cases b)
  from assms obtain results where
    g: "gather (workers deps files) (launch_world (length files) t c h) evs = Some (results, w)"
    and res: "res = Inr (case tally (map snd (zip files results)) 0 [] of
                  (failures, durations) \<Rightarrow>
                    (failures, durations, clock w - clock (launch_world (length files) t c h :: 'v world)))"
    unfolding b run_pipeline_launch by auto
  from g have "length results = length files"
    by (auto dest!: gather_length simp: workers_def)
  then have "length (map snd (zip files results)) = length files" by simp
  with tally_count [of "map snd (zip files results)" 0 "[]"] res show ?thesis
    by (cases "tally (map snd (zip files results)) 0 []") auto
qed

section \<open>The concurrency gate\<close>

lemma nogate_bind: "nogate m \<Longrightarrow> (\<And>a. nogate (f a)) \<Longrightarrow> nogate (bind m f)"
  by (induction m) auto

lemma nogate_try_except: "nogate m \<Longrightarrow> (\<And>e. nogate (h e)) \<Longrightarrow> nogate (try_except m h)"
  by (induction m) auto

lemma gate_try_finally_release: "nogate m \<Longrightarrow> gate (try_finally m SemaRelease) True"
  by (induction m) auto

lemma nogate_with_auth_retry: "nogate (with_auth_retry i tag call cl)"
  by (auto simp: with_auth_retry_def await_call_def set_progress_def refresh_def store_bundle_def
        new_client_def intro!: nogate_try_except nogate_bind split: exn.splits sum.splits)

lemma gate_process_file: "gate (process_file deps f i) False"
  by (auto simp: process_file_def async_with_SEMA_def Let_def set_progress_def board_fail_def
        board_complete_def new_client_def nogate_with_auth_retry
        intro!: gate_try_finally_release nogate_bind split: sum.splits)

lemma board_apply_simps [simp]:
  "sema_value (board_apply l ev w) = sema_value w"
  "holders (board_apply l ev w) = holders w"
  "auth_cookies (board_apply l ev w) = auth_cookies w"
  "auth_headers (board_apply l ev w) = auth_headers w"
  "io_log (board_apply l ev w) = io_log w"
  "clock (board_apply l ev w) = clock w"
  "board_lines (board_apply l ev w) = board_lines w"
  by (simp_all add: board_apply_def)

lemma run_sync_settled: "run_sync i t w = (t', w') \<Longrightarrow> settled t'"
  by (induction t arbitrary: w) auto

lemma run_sync_gate:
  "gate t h \<Longrightarrow> run_sync i t w = (t', w') \<Longrightarrow>
   (gate t' h \<and> sema_value w' = sema_value w \<and> holders w' = holders w) \<or>
   (h \<and> gate t' False \<and> sema_value w' = sema_value w + 1 \<and> holders w' = remove1 i (holders w))"
proof (induction t arbitrary: h w)
  case (BoardCall l ev k)
  from BoardCall.IH [of h "board_apply l ev w"] BoardCall.prems show ?case by simp
next
  case (PerfCounter k)
  from PerfCounter.IH [of "k (clock w)" h w] PerfCounter.prems show ?case by simp
next
  case (LoadHeaders k)
  from LoadHeaders.IH [of "k (auth_headers w)" h w] LoadHeaders.prems show ?case by simp
next
  case (LoadCookies k)
  from LoadCookies.IH [of "k (auth_cookies w)" h w] LoadCookies.prems show ?case by simp
next
  case (StoreCookies c k)
  from StoreCookies.IH [of h "w\<lparr>auth_cookies := Some c\<rparr>"] StoreCookies.prems show ?case by simp
next
  case (StoreHeaders x k)
  from StoreHeaders.IH [of h "w\<lparr>auth_headers := Some x\<rparr>"] StoreHeaders.prems show ?case by simp
next
  case (SemaRelease k)
  from SemaRelease.IH [of False "w\<lparr>sema_value := sema_value w + 1, holders := remove1 i (holders w)\<rparr>"]
    SemaRelease.prems show ?case by simp
qed auto

lemma resume_grant_gate:
  assumes "gate t h" "resume r t = Some k" "grant i r w = Some w1"
  shows "(gate k h \<and> sema_value w1 = sema_value w \<and> holders w1 = holders w) \<or>
         (\<not> h \<and> gate k True \<and> 0 < sema_value w \<and> sema_value w1 = sema_value w - 1 \<and>
          holders w1 = i # holders w)"
  using assms by (cases r; cases t) (auto split: if_splits)

lemma grant_clock [simp]: "grant i r w = Some w1 \<Longrightarrow> clock w1 = clock w"
  by (cases r) (auto split: if_splits)

lemma length_remove1_mem: "x \<in> set xs \<Longrightarrow> Suc (length (remove1 x xs)) = length xs"
  by (induction xs) auto

lemma step_ginv:
  assumes inv: "ginv s" and st: "step ev s = Some s'"
  shows "ginv s'"
proof -
  define i where "i = worker ev"
  define w where "w = sys_world s"
  from st obtain k w1 k' w' where
    i: "i < length (tasks s)"
    and res: "resume (resp ev) (tasks s ! i) = Some k"
    and gr: "grant i (resp ev) (w\<lparr>clock := ev_time ev\<rparr>) = Some w1"
    and rs: "run_sync i k w1 = (k', w')"
    and s': "s' = \<lparr>sys_world = w', tasks = (tasks s)[i := k']\<rparr>"
    by (auto simp: step_def Let_def i_def w_def split: if_splits option.splits prod.splits)
  define h where "h = (i \<in> set (holders w))"
  from inv i have g: "gate (tasks s ! i) h"
    and d: "distinct (holders w)"
    and c: "sema_value w + length (holders w) = SEMA"
    and others: "\<forall>j < length (tasks s). gate (tasks s ! j) (j \<in> set (holders w)) \<and> settled (tasks s ! j)"
    and bound: "\<forall>j \<in> set (holders w). j < length (tasks s)"
    by (auto simp: ginv_def h_def w_def)
  from resume_grant_gate [OF g res gr]
  obtain h1 where g1: "gate k h1"
    and w1: "(h1 = h \<and> sema_value w1 = sema_value w \<and> holders w1 = holders w) \<or>
             (\<not> h \<and> h1 \<and> 0 < sema_value w \<and> sema_value w1 = sema_value w - 1 \<and>
              holders w1 = i # holders w)"
    by auto
  from run_sync_gate [OF g1 rs]
  obtain h2 where g2: "gate k' h2"
    and w2: "(h2 = h1 \<and> sema_value w' = sema_value w1 \<and> holders w' = holders w1) \<or>
             (h1 \<and> \<not> h2 \<and> sema_value w' = sema_value w1 + 1 \<and> holders w' = remove1 i (holders w1))"
    by auto
  have mem: "(i \<in> set (holders w')) = h2"
    using w1 w2 d by (auto simp: h_def)
  have oth: "(j \<in> set (holders w')) = (j \<in> set (holders w))" if "j \<noteq> i" for j
    using w1 w2 that by auto
  have dist: "distinct (holders w')"
    using w1 w2 d by (auto simp: h_def distinct_remove1)
  have cnt: "sema_value w' + length (holders w') = SEMA"
    using w1 w2 c length_remove1_mem [of i "holders w"] by (auto simp: h_def)
  have bnd: "\<forall>j \<in> set (holders w'). j < length (tasks s)"
    using w1 w2 bound i by (auto dest: notin_set_remove1)
  have tasks: "gate ((tasks s)[i := k'] ! j) (j \<in> set (holders w')) \<and> settled ((tasks s)[i := k'] ! j)"
    if "j < length (tasks s)" for j
  proof (cases "j = i")
    case True
    with g2 mem i run_sync_settled [OF rs] show ?thesis by simp
  next
    case False
    with others that oth show ?thesis by simp
  qed
  show ?thesis
    unfolding ginv_def s' using dist cnt bnd tasks by simp
qed

lemma run_ginv: "ginv s \<Longrightarrow> run evs s = Some s' \<Longrightarrow> ginv s'"
  by (induction evs arbitrary: s) (auto split: option.splits dest: step_ginv)

lemma start_tasks_gate:
  assumes "\<forall>t \<in> set ts. gate t False" "start_tasks i ts w = (ts', w')"
  shows "length ts' = length ts \<and> (\<forall>t \<in> set ts'. gate t False \<and> settled t) \<and>
         sema_value w' = sema_value w \<and> holders w' = holders w"
  using assms
proof (induction ts arbitrary: i w ts' w')
  case Nil
  then show ?case by simp
next
  case (Cons t ts)
  obtain t1 w1 where r: "run_sync i t w = (t1, w1)" by (cases "run_sync i t w")
  obtain ts1 w2 where r2: "start_tasks (i + 1) ts w1 = (ts1, w2)" by (cases "start_tasks (i + 1) ts w1")
  from Cons.prems r r2 have eq: "ts' = t1 # ts1" "w' = w2" by auto
  from Cons.prems have "gate t False" by simp
  from run_sync_gate [OF this r] have t1: "gate t1 False" "sema_value w1 = sema_value w" "holders w1 = holders w"
    by auto
  from Cons.IH [OF _ r2] Cons.prems(1) t1 run_sync_settled [OF r] show ?case
    unfolding eq by simp
qed

lemma start_ginv:
  assumes "\<forall>t \<in> set ts. gate t False" "sema_value w = SEMA" "holders w = []"
  shows "ginv (start ts w)"
proof -
  obtain ts' w' where st: "start_tasks 0 ts w = (ts', w')" by (cases "start_tasks 0 ts w")
  from start_tasks_gate [OF assms(1) st] assms(2,3) show ?thesis
    by (auto simp: ginv_def start_def st)
qed

lemma workers_gate: "\<forall>t \<in> set (workers deps files). gate t False"
  by (auto simp: workers_def gate_process_file)

lemmas pipeline_eval =
  workers_def process_file_def async_with_SEMA_def with_auth_retry_def await_call_def
  set_progress_def board_fail_def board_complete_def new_client_def refresh_def store_bundle_def
  or_empty_def start_def step_def gather_def launch_world_def initial_world_def board_apply_def
  SEMA_def turn_def Let_def enumerate_eq_zip

text \<open>
  C5. In every state the pipeline can reach, at most 5 workers hold the concurrency gate:
  the holders are distinct and, with the free permits of the semaphore, are 5 in number.
  Every holder is a worker that has not ended, so a worker that ends, by returning or by
  raising, has released the gate.
\<close>

theorem gate_bounded_and_released:
  assumes "sema_value w = SEMA" and "holders w = []"
    and "run evs (start (workers deps files) w) = Some s"
  shows "length (holders (sys_world s)) \<le> 5 \<and>
         sema_value (sys_world s) + length (holders (sys_world s)) = 5 \<and>
         distinct (holders (sys_world s)) \<and>
         (\<forall>i \<in> set (holders (sys_world s)). i < length files \<and> outcome (tasks s ! i) = None)"
proof -
  have "ginv (start (workers deps files) w)"
    using assms(1,2) by (intro start_ginv workers_gate)
  from run_ginv [OF this assms(3)] have inv: "ginv s" .
  have len: "length (tasks s) = length files"
    using run_length [OF assms(3)] by (simp add: start_length workers_def)
  have "outcome (tasks s ! i) = None" if "i \<in> set (holders (sys_world s))" for i
  proof -
    from inv that have "gate (tasks s ! i) True" by (auto simp: ginv_def)
    then show ?thesis by (cases "tasks s ! i") auto
  qed
  with inv len show ?thesis
    by (auto simp: ginv_def SEMA_def)
qed

theorem gate_bounded_and_released_witness:
  "\<exists>s. run [turn 0 1 Granted] (start (workers deps0 [f1]) (launch_world 1 0 [] [])) = Some s \<and>
       holders (sys_world s) = [0] \<and> sema_value (sys_world s) = 4 \<and> outcome (tasks s ! 0) = None"
proof -
  obtain s where s: "run [turn 0 1 Granted] (start (workers deps0 [f1]) (launch_world 1 0 [] [])) = Some s"
    and h: "holders (sys_world s) = [0]"
    by (simp add: pipeline_eval)
  have "sema_value (launch_world 1 0 [] [] :: nat world) = SEMA"
    and "holders (launch_world 1 0 [] [] :: nat world) = []"
    by (simp_all add: launch_world_def initial_world_def board_apply_def)
  from gate_bounded_and_released [OF this s] h
  have "sema_value (sys_world s) = 4" and "outcome (tasks s ! 0) = None"
    by simp_all
  with s h show ?thesis by blast
qed

section \<open>Every run can be completed\<close>

lemma run_append:
  "run (xs @ ys) s = (case run xs s of None \<Rightarrow> None | Some s1 \<Rightarrow> run ys s1)"
  by (induction xs arbitrary: s) (auto split: option.splits)

lemma step_resume:
  assumes "i < length ts" "resume r (ts ! i) = Some k" "grant i r w = Some w1"
  shows "step \<lparr>worker = i, ev_time = clock w, resp = r\<rparr> \<lparr>sys_world = w, tasks = ts\<rparr> =
           Some \<lparr>sys_world = snd (run_sync i k w1), tasks = ts[i := fst (run_sync i k w1)]\<rparr>"
  using assms by (simp add: step_def Let_def split: prod.splits)

lemma finishes_step:
  assumes "step e s = Some s1" "finishes i ts s1"
  shows "finishes i ts s"
proof -
  from assms(2) obtain evs s' where "run evs s1 = Some s'" "outcome (tasks s' ! i) \<noteq> None"
    "length (tasks s') = length ts" "\<forall>j. j \<noteq> i \<longrightarrow> tasks s' ! j = ts ! j"
    unfolding finishes_def by blast
  with assms(1) show ?thesis
    unfolding finishes_def by (intro exI[of _ "e # evs"] exI[of _ s']) simp
qed

lemma finish_task:
  assumes "gate k h" "h \<or> 0 < sema_value w" "i < length ts"
  shows "finishes i ts \<lparr>sys_world = snd (run_sync i k w), tasks = ts[i := fst (run_sync i k w)]\<rparr>"
  using assms
proof (induction k arbitrary: h w ts)
  case (Return a)
  then show ?case unfolding finishes_def by (intro exI[of _ "[]"]) (simp add: nth_list_update)
next
  case (Raise e)
  then show ?case unfolding finishes_def by (intro exI[of _ "[]"]) (simp add: nth_list_update)
next
  case (BoardCall l ev k)
  from BoardCall.IH [of h "board_apply l ev w" ts] BoardCall.prems show ?case by simp
next
  case (PerfCounter k)
  from PerfCounter.IH [of "k (clock w)" h w ts] PerfCounter.prems show ?case by simp
next
  case (LoadHeaders k)
  from LoadHeaders.IH [of "k (auth_headers w)" h w ts] LoadHeaders.prems show ?case by simp
next
  case (LoadCookies k)
  from LoadCookies.IH [of "k (auth_cookies w)" h w ts] LoadCookies.prems show ?case by simp
next
  case (StoreCookies c k)
  from StoreCookies.IH [of h "w\<lparr>auth_cookies := Some c\<rparr>" ts] StoreCookies.prems show ?case by simp
next
  case (StoreHeaders x k)
  from StoreHeaders.IH [of h "w\<lparr>auth_headers := Some x\<rparr>" ts] StoreHeaders.prems show ?case by simp
next
  case (SemaRelease k)
  from SemaRelease.IH [of False "w\<lparr>sema_value := sema_value w + 1, holders := remove1 i (holders w)\<rparr>" ts]
    SemaRelease.prems show ?case by simp
next
  case (SemaAcquire k)
  let ?ts = "ts[i := SemaAcquire k]"
  let ?w1 = "w\<lparr>sema_value := sema_value w - 1, holders := i # holders w\<rparr>"
  from SemaAcquire.prems have pos: "0 < sema_value w" and g: "gate k True" by auto
  have "step \<lparr>worker = i, ev_time = clock w, resp = Granted\<rparr> \<lparr>sys_world = w, tasks = ?ts\<rparr> =
          Some \<lparr>sys_world = snd (run_sync i k ?w1), tasks = ?ts[i := fst (run_sync i k ?w1)]\<rparr>"
    using SemaAcquire.prems(3) pos by (intro step_resume) simp_all
  moreover have "finishes i ts \<lparr>sys_world = snd (run_sync i k ?w1), tasks = ?ts[i := fst (run_sync i k ?w1)]\<rparr>"
    using SemaAcquire.IH [OF g, of ?w1 ts] SemaAcquire.prems(3) by simp
  ultimately show ?case by (simp add: finishes_step)
next
  case (ToThreadReadRows p k)
  let ?w = "w\<lparr>io_log := io_log w @ [(i, ReadStarted p)]\<rparr>"
  let ?ts = "ts[i := ToThreadReadRows p k]"
  let ?r = "Inl (OtherError [])"
  from ToThreadReadRows.prems have g: "gate (k ?r) h" by simp
  have "step \<lparr>worker = i, ev_time = clock ?w, resp = RowsRead ?r\<rparr> \<lparr>sys_world = ?w, tasks = ?ts\<rparr> =
          Some \<lparr>sys_world = snd (run_sync i (k ?r) ?w), tasks = ?ts[i := fst (run_sync i (k ?r) ?w)]\<rparr>"
    using ToThreadReadRows.prems(3) by (intro step_resume) simp_all
  moreover have "finishes i ts \<lparr>sys_world = snd (run_sync i (k ?r) ?w), tasks = ?ts[i := fst (run_sync i (k ?r) ?w)]\<rparr>"
    using ToThreadReadRows.IH [of "k ?r" h ?w ts] g ToThreadReadRows.prems by simp
  ultimately show ?case by (simp add: finishes_step)
next
  case (ToThreadLogin k)
  let ?w = "w\<lparr>io_log := io_log w @ [(i, LoginStarted)]\<rparr>"
  let ?ts = "ts[i := ToThreadLogin k]"
  let ?r = "Inl (OtherError [])"
  from ToThreadLogin.prems have g: "gate (k ?r) h" by simp
  have "step \<lparr>worker = i, ev_time = clock ?w, resp = LoggedIn ?r\<rparr> \<lparr>sys_world = ?w, tasks = ?ts\<rparr> =
          Some \<lparr>sys_world = snd (run_sync i (k ?r) ?w), tasks = ?ts[i := fst (run_sync i (k ?r) ?w)]\<rparr>"
    using ToThreadLogin.prems(3) by (intro step_resume) simp_all
  moreover have "finishes i ts \<lparr>sys_world = snd (run_sync i (k ?r) ?w), tasks = ?ts[i := fst (run_sync i (k ?r) ?w)]\<rparr>"
    using ToThreadLogin.IH [of "k ?r" h ?w ts] g ToThreadLogin.prems by simp
  ultimately show ?case by (simp add: finishes_step)
next
  case (Call c cl k)
  let ?w = "w\<lparr>io_log := io_log w @ [(i, Invoked c cl (auth_cookies w) (auth_headers w))]\<rparr>"
  let ?ts = "ts[i := Call c cl k]"
  let ?r = "Inl (OtherError [])"
  from Call.prems have g: "gate (k ?r) h" by simp
  have "step \<lparr>worker = i, ev_time = clock ?w, resp = Responded ?r\<rparr> \<lparr>sys_world = ?w, tasks = ?ts\<rparr> =
          Some \<lparr>sys_world = snd (run_sync i (k ?r) ?w), tasks = ?ts[i := fst (run_sync i (k ?r) ?w)]\<rparr>"
    using Call.prems(3) by (intro step_resume) simp_all
  moreover have "finishes i ts \<lparr>sys_world = snd (run_sync i (k ?r) ?w), tasks = ?ts[i := fst (run_sync i (k ?r) ?w)]\<rparr>"
    using Call.IH [of "k ?r" h ?w ts] g Call.prems by simp
  ultimately show ?case by (simp add: finishes_step)
qed

lemma finish_suspended:
  assumes "gate (ts ! i) h" "settled (ts ! i)" "h \<or> 0 < sema_value w" "i < length ts"
  shows "finishes i ts \<lparr>sys_world = w, tasks = ts\<rparr>"
proof (cases "ts ! i")
  case (Return a)
  then show ?thesis unfolding finishes_def by (intro exI[of _ "[]"]) simp
next
  case (Raise e)
  then show ?thesis unfolding finishes_def by (intro exI[of _ "[]"]) simp
next
  case (SemaAcquire k)
  let ?w1 = "w\<lparr>sema_value := sema_value w - 1, holders := i # holders w\<rparr>"
  from assms SemaAcquire have pos: "0 < sema_value w" and g: "gate k True" by auto
  have "step \<lparr>worker = i, ev_time = clock w, resp = Granted\<rparr> \<lparr>sys_world = w, tasks = ts\<rparr> =
          Some \<lparr>sys_world = snd (run_sync i k ?w1), tasks = ts[i := fst (run_sync i k ?w1)]\<rparr>"
    using assms(4) pos SemaAcquire by (intro step_resume) simp_all
  with finish_task [OF g _ assms(4), of ?w1] show ?thesis
    by (simp add: finishes_step)
next
  case (ToThreadReadRows p k)
  let ?r = "Inl (OtherError [])"
  from assms ToThreadReadRows have g: "gate (k ?r) h" by simp
  have "step \<lparr>worker = i, ev_time = clock w, resp = RowsRead ?r\<rparr> \<lparr>sys_world = w, tasks = ts\<rparr> =
          Some \<lparr>sys_world = snd (run_sync i (k ?r) w), tasks = ts[i := fst (run_sync i (k ?r) w)]\<rparr>"
    using assms(4) ToThreadReadRows by (intro step_resume) simp_all
  with finish_task [OF g assms(3,4)] show ?thesis
    by (simp add: finishes_step)
next
  case (ToThreadLogin k)
  let ?r = "Inl (OtherError [])"
  from assms ToThreadLogin have g: "gate (k ?r) h" by simp
  have "step \<lparr>worker = i, ev_time = clock w, resp = LoggedIn ?r\<rparr> \<lparr>sys_world = w, tasks = ts\<rparr> =
          Some \<lparr>sys_world = snd (run_sync i (k ?r) w), tasks = ts[i := fst (run_sync i (k ?r) w)]\<rparr>"
    using assms(4) ToThreadLogin by (intro step_resume) simp_all
  with finish_task [OF g assms(3,4)] show ?thesis
    by (simp add: finishes_step)
next
  case (Call c cl k)
  let ?r = "Inl (OtherError [])"
  from assms Call have g: "gate (k ?r) h" by simp
  have "step \<lparr>worker = i, ev_time = clock w, resp = Responded ?r\<rparr> \<lparr>sys_world = w, tasks = ts\<rparr> =
          Some \<lparr>sys_world = snd (run_sync i (k ?r) w), tasks = ts[i := fst (run_sync i (k ?r) w)]\<rparr>"
    using assms(4) Call by (intro step_resume) simp_all
  with finish_task [OF g assms(3,4)] show ?thesis
    by (simp add: finishes_step)
qed (use assms in auto)

lemma complete_run:
  assumes "ginv s"
  shows "\<exists>evs s'. run evs s = Some s' \<and> unfinished s' = {}"
  using assms
proof (induction "card (unfinished s)" arbitrary: s)
  case 0
  have "finite (unfinished s)" by (simp add: unfinished_def)
  with 0 have "unfinished s = {}" by simp
  then show ?case by (intro exI[of _ "[]"]) simp
next
  case (Suc n)
  let ?w = "sys_world s"
  have fin: "finite (unfinished s)" by (simp add: unfinished_def)
  from Suc.hyps(2) have ne: "unfinished s \<noteq> {}" by auto
  have holder_unfinished: "i \<in> unfinished s" if "i \<in> set (holders ?w)" for i
  proof -
    from Suc.prems that have "i < length (tasks s)" "gate (tasks s ! i) True"
      by (auto simp: ginv_def)
    then show ?thesis by (cases "tasks s ! i") (auto simp: unfinished_def)
  qed
  obtain i where i: "i \<in> unfinished s" and ok: "i \<in> set (holders ?w) \<or> 0 < sema_value ?w"
  proof (cases "holders ?w")
    case Nil
    with Suc.prems have "0 < sema_value ?w" by (simp add: ginv_def SEMA_def)
    with ne that show ?thesis by blast
  next
    case (Cons j js)
    then have "j \<in> set (holders ?w)" by simp
    with holder_unfinished that show ?thesis by blast
  qed
  from i have len: "i < length (tasks s)" by (simp add: unfinished_def)
  with Suc.prems have g: "gate (tasks s ! i) (i \<in> set (holders ?w))" and st: "settled (tasks s ! i)"
    by (auto simp: ginv_def)
  have s: "s = \<lparr>sys_world = ?w, tasks = tasks s\<rparr>" by simp
  from finish_suspended [OF g st ok len] s have "finishes i (tasks s) s" by simp
  then obtain evs s1 where run1: "run evs s = Some s1" and dn: "outcome (tasks s1 ! i) \<noteq> None"
    and len1: "length (tasks s1) = length (tasks s)"
    and same: "\<forall>j. j \<noteq> i \<longrightarrow> tasks s1 ! j = tasks s ! j"
    unfolding finishes_def by blast
  have "unfinished s1 = unfinished s - {i}"
    using dn len1 same unfolding unfinished_def by (auto; metis option.distinct(1))
  with i fin Suc.hyps(2) have "n = card (unfinished s1)" by simp
  moreover have "ginv s1" using run_ginv [OF Suc.prems run1] .
  ultimately obtain evs2 s2 where "run evs2 s1 = Some s2" "unfinished s2 = {}"
    using Suc.hyps(1) by blast
  with run1 show ?case
    by (intro exI[of _ "evs @ evs2"] exI[of _ s2]) (simp add: run_append)
qed

lemma launch_world_gate [simp]:
  "sema_value (launch_world n t c h) = SEMA" "holders (launch_world n t c h) = []"
  by (simp_all add: launch_world_def initial_world_def)

lemma unfinished_empty_iff:
  "unfinished s = {} \<longleftrightarrow> list_all (\<lambda>t. outcome t \<noteq> None) (tasks s)"
  by (auto simp: unfinished_def list_all_length)

lemma gather_iff:
  "gather ts w evs = Some (results, w') \<longleftrightarrow>
     (\<exists>s. run evs (start ts w) = Some s \<and> unfinished s = {} \<and>
          results = List.map_filter outcome (tasks s) \<and> w' = sys_world s)"
  by (auto simp: gather_def unfinished_empty_iff split: option.splits)

lemma map_snd_zip_same: "length xs = length ys \<Longrightarrow> map snd (zip xs ys) = ys"
  by (simp add: map_snd_zip)

text \<open>
  C1, as the claim states it, fails: when the first login raises, \<^verbatim>\<open>run_pipeline\<close>
  returns no triple.
\<close>

theorem run_pipeline_returns_triple_counterexample:
  "\<not> (\<exists>failures durations total_time w.
        run_pipeline deps0 [f1] 0 (Inl (OtherError (ascii ''login failed''))) [] =
          Some (Inr (failures, durations, total_time), w))"
  by (simp add: run_pipeline_login_failed)

text \<open>
  C1, amended. After a first login that returned: whenever \<^verbatim>\<open>run_pipeline\<close> returns, it
  returns a triple whose failure count and durations are the exceptions and the results
  of the N workers' own tasks, so that they add up to N; every state the workers can
  reach can be continued by a schedule under which \<^verbatim>\<open>run_pipeline\<close> returns; and a turn
  of one worker, also one in which it raises, leaves the task of every other worker as it
  was.
\<close>

theorem run_pipeline_outcomes:
  fixes deps :: "'v deps"
  shows
  "(\<forall>evs res w. run_pipeline deps files t (Inr (c, h)) evs = Some (res, w) \<longrightarrow>
      (\<exists>s failures durations total_time.
         run evs (start (workers deps files) (launch_world (length files) t c h)) = Some s \<and>
         unfinished s = {} \<and> length (tasks s) = length files \<and>
         res = Inr (failures, durations, total_time) \<and>
         failures = length (filter isl (List.map_filter outcome (tasks s))) \<and>
         durations = map projr (filter (\<lambda>r. \<not> isl r) (List.map_filter outcome (tasks s))) \<and>
         failures + length durations = length files)) \<and>
   (\<forall>evs s. run evs (start (workers deps files) (launch_world (length files) t c h)) = Some s \<longrightarrow>
      (\<exists>evs'. run_pipeline deps files t (Inr (c, h)) (evs @ evs') \<noteq> None)) \<and>
   (\<forall>ev (s :: ('v, real) system) s' j.
      step ev s = Some s' \<and> j \<noteq> worker ev \<longrightarrow> tasks s' ! j = tasks s ! j)"
proof (intro conjI allI impI)
  fix evs res w
  assume rp: "run_pipeline deps files t (Inr (c, h)) evs = Some (res, w)"
  let ?w0 = "launch_world (length files) t c h :: 'v world"
  from rp obtain results where
    g: "gather (workers deps files) ?w0 evs = Some (results, w)"
    and res: "res = Inr (case tally (map snd (zip files results)) 0 [] of
                  (failures, durations) \<Rightarrow> (failures, durations, clock w - clock ?w0))"
    unfolding run_pipeline_launch by auto
  from g obtain s where s: "run evs (start (workers deps files) ?w0) = Some s"
    "unfinished s = {}" "results = List.map_filter outcome (tasks s)"
    unfolding gather_iff by blast
  from g have len: "length results = length files"
    by (auto dest!: gather_length simp: workers_def)
  then have z: "map snd (zip files results) = results"
    by (simp add: map_snd_zip_same)
  have lt: "length (tasks s) = length files"
    using run_length [OF s(1)] by (simp add: start_length workers_def)
  have split: "length (filter isl results) + length (filter (\<lambda>r. \<not> isl r) results) = length results"
    by (simp add: sum_length_filter_compl)
  show "\<exists>s failures durations total_time.
         run evs (start (workers deps files) ?w0) = Some s \<and>
         unfinished s = {} \<and> length (tasks s) = length files \<and>
         res = Inr (failures, durations, total_time) \<and>
         failures = length (filter isl (List.map_filter outcome (tasks s))) \<and>
         durations = map projr (filter (\<lambda>r. \<not> isl r) (List.map_filter outcome (tasks s))) \<and>
         failures + length durations = length files"
    using s lt res len split unfolding z tally_eq by (intro exI[of _ s]) simp
next
  fix evs s
  let ?w0 = "launch_world (length files) t c h :: 'v world"
  assume r: "run evs (start (workers deps files) ?w0) = Some s"
  have "ginv (start (workers deps files) ?w0)"
    by (intro start_ginv workers_gate) simp_all
  from run_ginv [OF this r] have "ginv s" .
  from complete_run [OF this] obtain evs' s' where c: "run evs' s = Some s'" "unfinished s' = {}"
    by blast
  with r have "run (evs @ evs') (start (workers deps files) ?w0) = Some s'"
    by (simp add: run_append)
  with c(2) have "gather (workers deps files) ?w0 (evs @ evs') =
      Some (List.map_filter outcome (tasks s'), sys_world s')"
    by (simp add: gather_iff)
  then have "run_pipeline deps files t (Inr (c, h)) (evs @ evs') \<noteq> None"
    unfolding run_pipeline_launch by simp
  then show "\<exists>evs'. run_pipeline deps files t (Inr (c, h)) (evs @ evs') \<noteq> None" ..
next
  fix ev and s s' :: "('v, real) system" and j
  assume "step ev s = Some s' \<and> j \<noteq> worker ev"
  then show "tasks s' ! j = tasks s ! j" using step_others [of ev s s' j] by blast
qed

theorem run_pipeline_outcomes_witness:
  "\<exists>w failures durations total_time.
     run_pipeline deps0 [f1, f2] 0 (Inr ([], [])) evs_two =
       Some (Inr (failures, durations, total_time), w) \<and>
     failures = 1 \<and> failures + length durations = 2"
proof -
  define rp where "rp = run_pipeline deps0 [f1, f2] 0 (Inr ([], [])) evs_two"
  have "map_option fst rp = Some (Inr (1, [7], 7))"
    unfolding rp_def
    by (simp add: run_pipeline_launch pipeline_eval evs_two_def deps0_def row0_def f1_def f2_def)
  then obtain w where r: "rp = Some (Inr (1, [7], 7), w)"
    by (cases rp) auto
  note T = run_pipeline_outcomes [of deps0 "[f1, f2]" 0 "[]" "[]", THEN conjunct1, rule_format,
      OF r [unfolded rp_def]]
  then obtain failures durations total_time where
    eq: "Inr (1, [7], 7) = (Inr (failures, durations, total_time) :: exn + nat \<times> real list \<times> real)"
    and sum: "failures + length durations = length [f1, f2]"
    by (elim exE conjE)
  from eq have "failures = 1" by simp
  with r eq sum show ?thesis
    unfolding rp_def by (intro exI[of _ w] exI[of _ failures] exI[of _ durations] exI[of _ total_time]) simp
qed

text \<open>
  C9. When the first login of \<^verbatim>\<open>run_pipeline\<close> raises, \<^verbatim>\<open>run_pipeline\<close> raises that
  exception, whatever the files and the schedule: the board has no line and has received
  no call, no worker has acquired the gate or handed anything to the outside, and no
  per-file outcome is produced.
\<close>

theorem run_pipeline_initial_refresh_fails:
  "run_pipeline deps files t (Inl e) evs =
     Some (Inl e,
       \<lparr>auth_cookies = None, auth_headers = None, sema_value = SEMA, board_lines = 0,
        board_log = [], clock = t, holders = [], io_log = [(length files, LoginStarted)]\<rparr>)"
  by (simp add: run_pipeline_login_failed initial_world_def)

section \<open>The retry wrapper\<close>

lemma step_single:
  "step e \<lparr>sys_world = w, tasks = [t]\<rparr> =
     (if worker e = 0 \<and> clock w \<le> ev_time e
      then case resume (resp e) t of
             None \<Rightarrow> None
           | Some k \<Rightarrow>
               (case grant 0 (resp e) (w\<lparr>clock := ev_time e\<rparr>) of
                  None \<Rightarrow> None
                | Some w1 \<Rightarrow> Some \<lparr>sys_world = snd (run_sync 0 k w1), tasks = [fst (run_sync 0 k w1)]\<rparr>)
      else None)"
  by (auto simp: step_def Let_def split: option.splits prod.splits)

lemma resume_ended [simp]: "resume r (Return a) = None" "resume r (Raise e) = None"
  by (cases r; simp)+

lemma run_ended:
  assumes "run evs \<lparr>sys_world = w, tasks = [t]\<rparr> = Some s" "outcome t \<noteq> None"
  shows "evs = [] \<and> s = \<lparr>sys_world = w, tasks = [t]\<rparr>"
  using assms by (cases evs; cases t) (auto simp: step_single split: if_splits)

lemma run_last_call:
  assumes "run evs \<lparr>sys_world = w,
              tasks = [Call call c2 (\<lambda>r. case r of Inl e \<Rightarrow> Raise e | Inr v \<Rightarrow> Return v)]\<rparr> = Some s"
  shows "(map resp evs = [] \<and> outcome (tasks s ! 0) = None \<and> io_log (sys_world s) = io_log w) \<or>
         (\<exists>r. map resp evs = [Responded r] \<and> outcome (tasks s ! 0) = Some r \<and>
               io_log (sys_world s) = io_log w)"
proof (cases evs)
  case Nil
  with assms show ?thesis by auto
next
  case (Cons e evs')
  with assms obtain r where r: "resp e = Responded r"
    and run': "run evs' \<lparr>sys_world = w\<lparr>clock := ev_time e\<rparr>,
                 tasks = [case r of Inl e \<Rightarrow> Raise e | Inr v \<Rightarrow> Return v]\<rparr> = Some s"
    by (cases "resp e") (auto simp: step_single split: if_splits sum.splits)
  from run_ended [OF run'] have "evs' = []"
    "s = \<lparr>sys_world = w\<lparr>clock := ev_time e\<rparr>, tasks = [case r of Inl e \<Rightarrow> Raise e | Inr v \<Rightarrow> Return v]\<rparr>"
    by (auto split: sum.splits)
  with Cons r show ?thesis by (auto split: sum.splits)
qed

lemma run_login:
  assumes "run evs \<lparr>sys_world = w,
              tasks = [ToThreadLogin (\<lambda>r. bind (store_bundle r)
                         (\<lambda>_. bind new_client (\<lambda>c2. await_call call c2)))]\<rparr> = Some s"
  shows "(map resp evs = [] \<and> outcome (tasks s ! 0) = None \<and> io_log (sys_world s) = io_log w) \<or>
         (\<exists>e'. map resp evs = [LoggedIn (Inl e')] \<and> outcome (tasks s ! 0) = Some (Inl e') \<and>
               io_log (sys_world s) = io_log w) \<or>
         (\<exists>c h. map resp evs = [LoggedIn (Inr (c, h))] \<and> outcome (tasks s ! 0) = None \<and>
               io_log (sys_world s) = io_log w @
                 [(0, Invoked call \<lparr>client_headers = h, client_cookies = c\<rparr> (Some c) (Some h))]) \<or>
         (\<exists>c h r. map resp evs = [LoggedIn (Inr (c, h)), Responded r] \<and> outcome (tasks s ! 0) = Some r \<and>
               io_log (sys_world s) = io_log w @
                 [(0, Invoked call \<lparr>client_headers = h, client_cookies = c\<rparr> (Some c) (Some h))])"
proof (cases evs)
  case Nil
  with assms show ?thesis by auto
next
  case (Cons e evs')
  with assms obtain x where x: "resp e = LoggedIn x"
    and run': "run evs' \<lparr>sys_world = snd (run_sync 0 (bind (store_bundle x)
                         (\<lambda>_. bind new_client (\<lambda>c2. await_call call c2))) (w\<lparr>clock := ev_time e\<rparr>)),
                 tasks = [fst (run_sync 0 (bind (store_bundle x)
                         (\<lambda>_. bind new_client (\<lambda>c2. await_call call c2))) (w\<lparr>clock := ev_time e\<rparr>))]\<rparr> = Some s"
    by (cases "resp e") (auto simp: step_single split: if_splits)
  show ?thesis
  proof (cases x)
    case (Inl e')
    with run' have "run evs' \<lparr>sys_world = w\<lparr>clock := ev_time e\<rparr>, tasks = [Raise e']\<rparr> = Some s"
      by (simp add: store_bundle_def)
    from run_ended [OF this] Cons x Inl show ?thesis by auto
  next
    case (Inr b)
    obtain c h where b: "b = (c, h)" by (cases b)
    let ?w = "w\<lparr>clock := ev_time e, auth_cookies := Some c, auth_headers := Some h\<rparr>"
    let ?I = "Invoked call \<lparr>client_headers = h, client_cookies = c\<rparr> (Some c) (Some h)"
    from run' Inr b have "run evs' \<lparr>sys_world = ?w\<lparr>io_log := io_log w @ [(0, ?I)]\<rparr>,
        tasks = [Call call \<lparr>client_headers = h, client_cookies = c\<rparr>
                  (\<lambda>r. case r of Inl e \<Rightarrow> Raise e | Inr v \<Rightarrow> Return v)]\<rparr> = Some s"
      by (simp add: store_bundle_def new_client_def await_call_def or_empty_def)
    from run_last_call [OF this] Cons x Inr b show ?thesis by auto
  qed
qed

lemma auth_status_cases:
  "auth_status e \<Longrightarrow> \<exists>status. e = HTTPStatusError status \<and> status \<in> {401, 403, 419}"
  by (cases e) auto

text \<open>
  C2, as the claim states it, fails: after a first invocation that failed with status 401
  the login may raise, and then the operation has been invoked once, not twice.
\<close>

theorem with_auth_retry_counterexample:
  "\<exists>s. run [turn 0 1 (Responded (Inl (HTTPStatusError 401))),
             turn 0 2 (LoggedIn (Inl (OtherError (ascii ''login failed''))))]
            (start [with_auth_retry 0 [] (poll_until_done_async (0 :: nat)) cl0] (initial_world 0)) = Some s \<and>
       outcome (tasks s ! 0) = Some (Inl (OtherError (ascii ''login failed''))) \<and>
       length (filter is_invoked (map snd (io_log (sys_world s)))) = 1"
  by (simp add: pipeline_eval)

text \<open>
  C2, amended. Every run of the wrapper is one of those listed in \<open>expected_retry\<close>:
  a first failure with status 401, 403 or 419 starts exactly one login; if the login
  returns, the operation is invoked exactly once more, with a client of the refreshed
  credentials, and what that invocation returns or raises is the result; if the login
  raises, its exception is the result and there is no second invocation. Any other
  failure of the first invocation is the result, with no login and no second invocation.
  There is never a third invocation.
\<close>

theorem with_auth_retry_run:
  assumes "io_log w = []"
    and "run evs (start [with_auth_retry l tag call cl] w) = Some s"
  shows "expected_retry call cl (auth_cookies w) (auth_headers w) (map resp evs) =
           Some (outcome (tasks s ! 0), map snd (io_log (sys_world s)))"
proof -
  let ?I0 = "Invoked call cl (auth_cookies w) (auth_headers w)"
  let ?h = "\<lambda>e. case e of
          HTTPStatusError status \<Rightarrow>
            if status \<notin> {401, 403, 419} then Raise e
            else set_progress l (tag @ ascii '' Refreshing auth'' @ [0x2026]) 20
                   (bind refresh (\<lambda>_. bind new_client (\<lambda>c2. await_call call c2)))
        | _ \<Rightarrow> Raise e"
  let ?w0 = "w\<lparr>io_log := [(0, ?I0)]\<rparr>"
  have st: "start [with_auth_retry l tag call cl] w =
      \<lparr>sys_world = ?w0,
       tasks = [Call call cl (\<lambda>r. try_except (case r of Inl e \<Rightarrow> Raise e | Inr v \<Rightarrow> Return v) ?h)]\<rparr>"
    using assms(1) by (simp add: start_def with_auth_retry_def await_call_def)
  show ?thesis
  proof (cases evs)
    case Nil
    with assms(2) st show ?thesis by auto
  next
    case (Cons e evs')
    let ?w1 = "?w0\<lparr>clock := ev_time e\<rparr>"
    from assms(2) Cons obtain x where x: "resp e = Responded x"
      and run': "run evs' \<lparr>sys_world = snd (run_sync 0 (try_except (case x of Inl e \<Rightarrow> Raise e | Inr v \<Rightarrow> Return v) ?h) ?w1),
             tasks = [fst (run_sync 0 (try_except (case x of Inl e \<Rightarrow> Raise e | Inr v \<Rightarrow> Return v) ?h) ?w1)]\<rparr> = Some s"
      unfolding st by (cases "resp e") (auto simp: step_single split: if_splits)
    show ?thesis
    proof (cases x)
      case (Inr v)
      with run' have "run evs' \<lparr>sys_world = ?w1, tasks = [Return v]\<rparr> = Some s" by simp
      from run_ended [OF this] Cons x Inr show ?thesis by auto
    next
      case (Inl ex)
      show ?thesis
      proof (cases "auth_status ex")
        case False
        then have "?h ex = Raise ex" by (cases ex) auto
        with run' Inl have "run evs' \<lparr>sys_world = ?w1, tasks = [Raise ex]\<rparr> = Some s" by simp
        from run_ended [OF this] Cons x Inl False show ?thesis by auto
      next
        case True
        then obtain status where ex: "ex = HTTPStatusError status" "status \<in> {401, 403, 419}"
          using auth_status_cases by blast
        let ?w2 = "board_apply l (Progress (tag @ ascii '' Refreshing auth'' @ [0x2026]) 20) ?w1"
        from ex have "?h ex = set_progress l (tag @ ascii '' Refreshing auth'' @ [0x2026]) 20
                   (bind refresh (\<lambda>_. bind new_client (\<lambda>c2. await_call call c2)))"
          by auto
        with run' Inl have "run evs' \<lparr>sys_world = ?w2\<lparr>io_log := io_log ?w2 @ [(0, LoginStarted)]\<rparr>,
             tasks = [ToThreadLogin (\<lambda>r. bind (store_bundle r)
                         (\<lambda>_. bind new_client (\<lambda>c2. await_call call c2)))]\<rparr> = Some s"
          by (simp add: set_progress_def refresh_def)
        from run_login [OF this] Cons x Inl True show ?thesis
          by (elim disjE exE conjE) simp_all
      qed
    qed
  qed
qed

theorem with_auth_retry_run_witness:
  "\<exists>s. run [turn 0 1 (Responded (Inl (HTTPStatusError 401))),
             turn 0 2 (LoggedIn (Inr ([(ascii ''sid'', ascii ''2'')], []))),
             turn 0 3 (Responded (Inl (HTTPStatusError 401)))]
            (start [with_auth_retry 0 [] (poll_until_done_async (0 :: nat)) cl0] (initial_world 0)) = Some s \<and>
       outcome (tasks s ! 0) = Some (Inl (HTTPStatusError 401)) \<and>
       map snd (io_log (sys_world s)) =
         [Invoked (poll_until_done_async 0) cl0 None None, LoginStarted,
          Invoked (poll_until_done_async 0)
            \<lparr>client_headers = [], client_cookies = [(ascii ''sid'', ascii ''2'')]\<rparr>
            (Some [(ascii ''sid'', ascii ''2'')]) (Some [])]"
proof -
  let ?evs = "[turn 0 1 (Responded (Inl (HTTPStatusError 401))),
             turn 0 2 (LoggedIn (Inr ([(ascii ''sid'', ascii ''2'')], []))),
             turn 0 3 (Responded (Inl (HTTPStatusError 401) :: exn + nat))]"
  obtain s where s: "run ?evs (start [with_auth_retry 0 [] (poll_until_done_async (0 :: nat)) cl0] (initial_world 0)) = Some s"
    by (simp add: pipeline_eval)
  have "io_log (initial_world 0 :: nat world) = []" by (simp add: initial_world_def)
  from with_auth_retry_run [OF this s] s show ?thesis
    by (simp add: turn_def initial_world_def)
qed

section \<open>Soundness of the assertions\<close>

lemma wp_bind:
  "wp i S (bind m f) K w0 w =
     wp i S m (\<lambda>r w0 w. case r of Inl e \<Rightarrow> K (Inl e) w0 w | Inr a \<Rightarrow> wp i S (f a) K w0 w) w0 w"
  by (induction m arbitrary: w0 w) simp_all

lemma wp_try_except:
  "wp i S (try_except m h) K w0 w =
     wp i S m (\<lambda>r w0 w. case r of Inl e \<Rightarrow> wp i S (h e) K w0 w | Inr a \<Rightarrow> K (Inr a) w0 w) w0 w"
  by (induction m arbitrary: w0 w) simp_all

lemma wp_try_finally:
  "wp i S (try_finally m fin) K w0 w =
     wp i S m (\<lambda>r w0 w. wp i S (fin (case r of Inl e \<Rightarrow> Raise e | Inr a \<Rightarrow> Return a)) K w0 w) w0 w"
  by (induction m arbitrary: w0 w) simp_all

lemma run_sync_wp:
  "wp i S t (final S) w0 w \<Longrightarrow> run_sync i t w = (t', w') \<Longrightarrow>
     guar S w0 w' \<and> inv S w' \<and> hold i S t' w'"
proof (induction t arbitrary: w)
  case (BoardCall l ev k)
  from BoardCall.IH [of "board_apply l ev w"] BoardCall.prems show ?case by simp
next
  case (PerfCounter k)
  from PerfCounter.IH [of "k (clock w)" w] PerfCounter.prems show ?case by simp
next
  case (LoadHeaders k)
  from LoadHeaders.IH [of "k (auth_headers w)" w] LoadHeaders.prems show ?case by simp
next
  case (LoadCookies k)
  from LoadCookies.IH [of "k (auth_cookies w)" w] LoadCookies.prems show ?case by simp
next
  case (StoreCookies c k)
  from StoreCookies.IH [of "w\<lparr>auth_cookies := Some c\<rparr>"] StoreCookies.prems show ?case by simp
next
  case (StoreHeaders x k)
  from StoreHeaders.IH [of "w\<lparr>auth_headers := Some x\<rparr>"] StoreHeaders.prems show ?case by simp
next
  case (SemaRelease k)
  from SemaRelease.IH [of "w\<lparr>sema_value := sema_value w + 1, holders := remove1 i (holders w)\<rparr>"]
    SemaRelease.prems show ?case by simp
qed (auto simp: final_def)

lemma resumed_trans:
  assumes "\<And>a b c. rely S a b \<Longrightarrow> rely S b c \<Longrightarrow> rely S a c"
  shows "rely S w w' \<Longrightarrow> resumed S w' w2 t \<Longrightarrow> resumed S w w2 t"
  using assms unfolding resumed_def by blast

lemma hold_stable:
  assumes tr: "\<And>a b c. rely S a b \<Longrightarrow> rely S b c \<Longrightarrow> rely S a c"
    and "hold i S t w" "rely S w w'"
  shows "hold i S t w'"
  using assms(2,3) resumed_trans [of S w w', OF tr]
  by (cases t) auto

lemma init_stable:
  assumes tr: "\<And>a b c. rely S a b \<Longrightarrow> rely S b c \<Longrightarrow> rely S a c"
    and "init i S t w" "rely S w w'"
  shows "init i S t w'"
  using assms unfolding init_def by blast

lemma hold_resume:
  assumes "hold i S t w" "resume r t = Some k" "grant i r (w\<lparr>clock := tm\<rparr>) = Some w1"
    and "okr S r" "rely S w w" "inv S w" "clock w \<le> tm"
  shows "wp i S k (final S) w w1"
proof -
  from assms(5-7) have "resumed S w w tm" by (simp add: resumed_def)
  with assms(1-4) show ?thesis
    by (cases r; cases t) (auto split: if_splits)
qed

lemma step_sysinv:
  assumes fam: "rg_family S (length (tasks s))"
    and inv: "sysinv S s"
    and st: "step ev s = Some s'"
    and ok: "okr (S (worker ev)) (resp ev)"
  shows "sysinv S s'"
proof -
  define i where "i = worker ev"
  define w where "w = sys_world s"
  from st obtain k w1 k' w' where
    i: "i < length (tasks s)"
    and tm: "clock w \<le> ev_time ev"
    and res: "resume (resp ev) (tasks s ! i) = Some k"
    and gr: "grant i (resp ev) (w\<lparr>clock := ev_time ev\<rparr>) = Some w1"
    and rs: "run_sync i k w1 = (k', w')"
    and s': "s' = \<lparr>sys_world = w', tasks = (tasks s)[i := k']\<rparr>"
    by (auto simp: step_def Let_def i_def w_def split: if_splits option.splits prod.splits)
  from fam i have refl: "rely (S i) w w"
    by (simp add: rg_family_def)
  from inv i have "inv (S i) w" "hold i (S i) (tasks s ! i) w"
    by (auto simp: sysinv_def w_def)
  from hold_resume [OF this(2) res gr _ refl this(1) tm] ok
  have "wp i (S i) k (final (S i)) w w1" by (simp add: i_def)
  from run_sync_wp [OF this rs]
  have g: "guar (S i) w w'" and iv: "inv (S i) w'" and h: "hold i (S i) k' w'" by auto
  have "inv (S j) w' \<and> hold j (S j) ((tasks s)[i := k'] ! j) w'" if j: "j < length (tasks s)" for j
  proof (cases "j = i")
    case True
    with iv h i show ?thesis by simp
  next
    case False
    from fam i j False g have r: "rely (S j) w w'"
      unfolding rg_family_def by blast
    from inv j have "inv (S j) w" "hold j (S j) (tasks s ! j) w"
      by (auto simp: sysinv_def w_def)
    moreover from fam j have tr: "\<And>a b c. rely (S j) a b \<Longrightarrow> rely (S j) b c \<Longrightarrow> rely (S j) a c"
      unfolding rg_family_def by blast
    moreover from fam j have "\<And>a b. inv (S j) a \<Longrightarrow> rely (S j) a b \<Longrightarrow> inv (S j) b"
      unfolding rg_family_def by blast
    ultimately show ?thesis
      using r False hold_stable [OF tr] by auto
  qed
  then show ?thesis
    unfolding sysinv_def s' by simp
qed

lemma run_sysinv:
  assumes "rg_family S (length (tasks s))" "sysinv S s" "run evs s = Some s'"
    and "\<forall>ev \<in> set evs. okr (S (worker ev)) (resp ev)"
  shows "sysinv S s'"
  using assms
proof (induction evs arbitrary: s)
  case Nil
  then show ?case by simp
next
  case (Cons e evs)
  from Cons.prems(3) obtain s1 where s1: "step e s = Some s1" "run evs s1 = Some s'"
    by (auto split: option.splits)
  from Cons.prems(4) have ok1: "okr (S (worker e)) (resp e)"
    and ok': "\<forall>ev \<in> set evs. okr (S (worker ev)) (resp ev)" by simp_all
  from step_sysinv [OF Cons.prems(1,2) s1(1) ok1] have inv1: "sysinv S s1" .
  from step_length [OF s1(1)] Cons.prems(1) have fam1: "rg_family S (length (tasks s1))" by simp
  from Cons.IH [OF fam1 inv1 s1(2) ok'] show ?case .
qed

lemma start_tasks_sysinv:
  assumes fam: "rg_family S n"
    and "i0 + length ts = n"
    and "\<forall>j<length ts. inv (S (i0 + j)) w \<and> init (i0 + j) (S (i0 + j)) (ts ! j) w"
    and "start_tasks i0 ts w = (ts', w')"
  shows "length ts' = length ts \<and>
         (\<forall>j<length ts. inv (S (i0 + j)) w' \<and> hold (i0 + j) (S (i0 + j)) (ts' ! j) w') \<and>
         (\<forall>m<i0. rely (S m) w w')"
  using assms(2-4)
proof (induction ts arbitrary: i0 w ts' w')
  case Nil
  have "rely (S m) w w" if "m < n" for m
    using fam that unfolding rg_family_def by blast
  with Nil show ?case by simp
next
  case (Cons t ts)
  obtain t1 w1 where r: "run_sync i0 t w = (t1, w1)" by (cases "run_sync i0 t w")
  obtain ts1 w2 where r2: "start_tasks (i0 + 1) ts w1 = (ts1, w2)" by (cases "start_tasks (i0 + 1) ts w1")
  from Cons.prems r r2 have eq: "ts' = t1 # ts1" "w' = w2" by auto
  from Cons.prems(1) have i0: "i0 < n" by simp
  have tr: "rely (S m) a b \<Longrightarrow> rely (S m) b c \<Longrightarrow> rely (S m) a c" if "m < n" for m a b c
    using fam that unfolding rg_family_def by blast
  have stab: "inv (S m) a \<Longrightarrow> rely (S m) a b \<Longrightarrow> inv (S m) b" if "m < n" for m a b
    using fam that unfolding rg_family_def by blast
  have compat: "guar (S i0) a b \<Longrightarrow> rely (S m) a b" if "m < n" "m \<noteq> i0" for m a b
    using fam that i0 unfolding rg_family_def by blast
  from Cons.prems(2) have "inv (S (i0 + 0)) w \<and> init (i0 + 0) (S (i0 + 0)) ((t # ts) ! 0) w"
    by (rule allE [where x = 0]) simp
  then have i1: "inv (S i0) w" and i2: "init i0 (S i0) t w" by simp_all
  have "rely (S i0) w w"
    using fam i0 unfolding rg_family_def by blast
  with i1 i2 have "wp i0 (S i0) t (final (S i0)) w w" unfolding init_def by blast
  from run_sync_wp [OF this r]
  have g: "guar (S i0) w w1" and iv: "inv (S i0) w1" and h: "hold i0 (S i0) t1 w1" by auto
  have rest: "\<forall>j<length ts. inv (S (i0 + 1 + j)) w1 \<and> init (i0 + 1 + j) (S (i0 + 1 + j)) (ts ! j) w1"
  proof (intro allI impI)
    fix j assume j: "j < length ts"
    with Cons.prems(1) have m: "i0 + 1 + j < n" "i0 + 1 + j \<noteq> i0" by auto
    from Cons.prems(2) have "inv (S (i0 + Suc j)) w \<and> init (i0 + Suc j) (S (i0 + Suc j)) ((t # ts) ! Suc j) w"
      by (rule allE [where x = "Suc j"]) (use j in simp)
    then have a: "inv (S (i0 + 1 + j)) w" and b: "init (i0 + 1 + j) (S (i0 + 1 + j)) (ts ! j) w" by simp_all
    note rl = compat [OF m g]
    from stab [OF m(1) a rl] init_stable [OF tr [OF m(1)] b rl]
    show "inv (S (i0 + 1 + j)) w1 \<and> init (i0 + 1 + j) (S (i0 + 1 + j)) (ts ! j) w1" by simp
  qed
  from Cons.prems(1) have "i0 + 1 + length ts = n" by simp
  from Cons.IH [OF this rest r2]
  have len: "length ts1 = length ts"
    and hs: "\<forall>j<length ts. inv (S (i0 + 1 + j)) w2 \<and> hold (i0 + 1 + j) (S (i0 + 1 + j)) (ts1 ! j) w2"
    and rl: "\<forall>m<i0 + 1. rely (S m) w1 w2"
    by auto
  from rl have r0: "rely (S i0) w1 w2" by simp
  have first: "inv (S i0) w2 \<and> hold i0 (S i0) t1 w2"
    using stab [OF i0 iv r0] hold_stable [OF tr [OF i0] h r0] by simp
  have all: "inv (S (i0 + j)) w2 \<and> hold (i0 + j) (S (i0 + j)) ((t1 # ts1) ! j) w2"
    if "j < length (t # ts)" for j
  proof (cases j)
    case 0
    with first show ?thesis by simp
  next
    case (Suc j')
    with that hs show ?thesis by simp
  qed
  have before: "rely (S m) w w2" if "m < i0" for m
  proof -
    from that i0 have m: "m < n" "m \<noteq> i0" by auto
    from rl that have "rely (S m) w1 w2" by simp
    from tr [OF m(1) compat [OF m g] this] show ?thesis .
  qed
  from len all before show ?case unfolding eq by simp
qed

lemma rg_sound:
  assumes fam: "rg_family S (length ts)"
    and ini: "\<forall>j<length ts. inv (S j) w \<and> init j (S j) (ts ! j) w"
    and run: "run evs (start ts w) = Some s"
    and ok: "\<forall>ev \<in> set evs. okr (S (worker ev)) (resp ev)"
  shows "\<forall>j<length ts. inv (S j) (sys_world s)"
proof -
  obtain ts' w' where st: "start_tasks 0 ts w = (ts', w')" by (cases "start_tasks 0 ts w")
  from start_tasks_sysinv [OF fam _ _ st] ini
  have "length ts' = length ts" "\<forall>j<length ts. inv (S j) w' \<and> hold j (S j) (ts' ! j) w'"
    by auto
  then have "sysinv S (start ts w)" and len: "length (tasks (start ts w)) = length ts"
    by (auto simp: sysinv_def start_def st)
  from run_sysinv [OF _ this(1) run ok] fam len have "sysinv S s" by simp
  with run_length [OF run] len show ?thesis
    by (simp add: sysinv_def)
qed

section \<open>Replacement of the credential bundle\<close>

lemma unmixed_rg_simps [simp]:
  "inv (unmixed_rg B) = unmixed B" "rely (unmixed_rg B) a b = (unmixed B a \<longrightarrow> unmixed B b)"
  "guar (unmixed_rg B) a b = (unmixed B a \<longrightarrow> unmixed B b)" "okr (unmixed_rg B) = delivers B"
  by (simp_all add: unmixed_rg_def)

lemma unmixed_rg_family: "rg_family (\<lambda>i. unmixed_rg B) n"
  by (simp add: rg_family_def)

lemma client_of_mem [simp]:
  "(c, h) \<in> B \<Longrightarrow> \<lparr>client_headers = or_empty h, client_cookies = or_empty c\<rparr> \<in> client_of ` B"
  by (force simp: client_of_def)

lemma resumed_unmixed_rg [simp]: "resumed (unmixed_rg B) w w2 t = (unmixed B w2 \<and> clock w2 \<le> t)"
  by (auto simp: resumed_def)

lemma wp_retry_unmixed_rg:
  assumes "unmixed B w" "cl \<in> client_of ` B" "\<And>r w0' w'. unmixed B w' \<Longrightarrow> K r w0' w'"
  shows "wp i (unmixed_rg B) (with_auth_retry l tag call cl) K w0 w"
proof -
  have K: "K r w0' w'" if "(auth_cookies w', auth_headers w') \<in> B"
    "list_all (\<lambda>e. whole B (snd e)) (io_log w')" for r w0' w'
    using assms(3) that by (simp add: unmixed_def)
  show ?thesis
    using assms(1,2)
    by (auto simp: with_auth_retry_def await_call_def wp_try_except wp_bind set_progress_def refresh_def
        store_bundle_def new_client_def unmixed_def
        intro!: K split: sum.splits exn.splits)
qed

lemma keepsI:
  "(\<And>K w0 w. unmixed B w \<Longrightarrow> (\<And>r w0' w'. unmixed B w' \<Longrightarrow> K r w0' w') \<Longrightarrow> wp i (unmixed_rg B) t K w0 w)
   \<Longrightarrow> keeps i B t"
  unfolding keeps_def by blast

lemma keepsD:
  "keeps i B t \<Longrightarrow> unmixed B w \<Longrightarrow> (\<And>r w0' w'. unmixed B w' \<Longrightarrow> K r w0' w') \<Longrightarrow> wp i (unmixed_rg B) t K w0 w"
  unfolding keeps_def by blast

lemma unmixed_updates [simp]:
  "unmixed B (board_apply l ev w) = unmixed B w"
  "unmixed B (w\<lparr>clock := t\<rparr>) = unmixed B w"
  "unmixed B (w\<lparr>sema_value := n\<rparr>) = unmixed B w"
  "unmixed B (w\<lparr>holders := hs\<rparr>) = unmixed B w"
  by (simp_all add: unmixed_def)

lemma keeps_Return: "keeps i B (Return a)"
  by (rule keepsI) simp

lemma keeps_Raise: "keeps i B (Raise e)"
  by (rule keepsI) simp

lemma keeps_BoardCall: "keeps i B k \<Longrightarrow> keeps i B (BoardCall l ev k)"
  by (rule keepsI) (simp add: keepsD)

lemma keeps_PerfCounter: "(\<And>t. keeps i B (k t)) \<Longrightarrow> keeps i B (PerfCounter k)"
  by (rule keepsI) (simp add: keepsD)

lemma keeps_SemaRelease: "keeps i B k \<Longrightarrow> keeps i B (SemaRelease k)"
  by (rule keepsI) (simp add: keepsD)

lemma keeps_SemaAcquire: "keeps i B k \<Longrightarrow> keeps i B (SemaAcquire k)"
  by (rule keepsI) (simp add: keepsD)

lemma keeps_ToThreadReadRows: "(\<And>r. keeps i B (k r)) \<Longrightarrow> keeps i B (ToThreadReadRows p k)"
  by (rule keepsI) (simp add: keepsD, simp add: unmixed_def)

lemma keeps_bind:
  assumes "keeps i B m" "\<And>a. keeps i B (f a)"
  shows "keeps i B (bind m f)"
proof (rule keepsI)
  fix K :: "exn + 'c \<Rightarrow> 'a world \<Rightarrow> 'a world \<Rightarrow> bool" and w0 w :: "'a world"
  assume w: "unmixed B w" and K: "\<And>r w0' w'. unmixed B w' \<Longrightarrow> K r w0' w'"
  show "wp i (unmixed_rg B) (bind m f) K w0 w"
    unfolding wp_bind
    by (rule keepsD [OF assms(1) w]) (auto split: sum.splits intro: K keepsD [OF assms(2)])
qed

lemma keeps_try_finally:
  assumes "keeps i B m" "\<And>e. keeps i B (fin (Raise e))" "\<And>a. keeps i B (fin (Return a))"
  shows "keeps i B (try_finally m fin)"
proof (rule keepsI)
  fix K :: "exn + 'b \<Rightarrow> 'a world \<Rightarrow> 'a world \<Rightarrow> bool" and w0 w :: "'a world"
  assume w: "unmixed B w" and K: "\<And>r w0' w'. unmixed B w' \<Longrightarrow> K r w0' w'"
  show "wp i (unmixed_rg B) (try_finally m fin) K w0 w"
    unfolding wp_try_finally
    by (rule keepsD [OF assms(1) w])
      (auto split: sum.splits intro: K keepsD [OF assms(2)] keepsD [OF assms(3)])
qed

lemma keeps_with_auth_retry: "cl \<in> client_of ` B \<Longrightarrow> keeps i B (with_auth_retry l tag call cl)"
  by (rule keepsI) (rule wp_retry_unmixed_rg)

lemma keeps_new_client:
  assumes "\<And>cl. cl \<in> client_of ` B \<Longrightarrow> keeps i B (f cl)"
  shows "keeps i B (bind new_client f)"
proof (rule keepsI)
  fix K :: "exn + 'b \<Rightarrow> 'a world \<Rightarrow> 'a world \<Rightarrow> bool" and w0 w :: "'a world"
  assume w: "unmixed B w" and K: "\<And>r w0' w'. unmixed B w' \<Longrightarrow> K r w0' w'"
  from w have "\<lparr>client_headers = or_empty (auth_headers w), client_cookies = or_empty (auth_cookies w)\<rparr>
      \<in> client_of ` B"
    by (simp add: unmixed_def)
  from keepsD [OF assms [OF this] w] K show "wp i (unmixed_rg B) (bind new_client f) K w0 w"
    by (simp add: new_client_def)
qed

lemma keeps_process_file: "keeps i B (process_file deps f i)"
  unfolding process_file_def async_with_SEMA_def Let_def set_progress_def board_fail_def
    board_complete_def
  by (intro keeps_PerfCounter keeps_SemaAcquire keeps_try_finally keeps_SemaRelease keeps_BoardCall
      keeps_ToThreadReadRows)
    (auto split: sum.splits
      intro!: keeps_Return keeps_Raise keeps_BoardCall keeps_new_client keeps_bind
        keeps_with_auth_retry keeps_PerfCounter)

lemma init_process_file_unmixed_rg: "init i (unmixed_rg B) (process_file deps f i) w"
  unfolding init_def
  by (auto intro!: keepsD [OF keeps_process_file] simp: final_def)

lemma workers_nth:
  "j < length files \<Longrightarrow> workers deps files ! j = process_file deps (files ! j) j"
  by (simp add: workers_def nth_enumerate_eq)

lemma length_workers [simp]: "length (workers deps files) = length files"
  by (simp add: workers_def)

lemma run_no_tasks: "run evs (start [] w) = Some s \<Longrightarrow> sys_world s = w"
  by (cases evs) (auto simp: start_def step_def)

lemma delivers_delivered: "ev \<in> set evs \<Longrightarrow> delivers (insert b (set (delivered evs))) (resp ev)"
proof (cases "resp ev")
  case (LoggedIn r)
  assume ev: "ev \<in> set evs"
  show ?thesis
  proof (cases r)
    case (Inr p)
    obtain c h where p: "p = (c, h)" by (cases p)
    from ev LoggedIn Inr p have "(Some c, Some h) \<in> set (delivered evs)"
      by (force simp: delivered_def List.map_filter_def)
    with LoggedIn Inr p show ?thesis by simp
  qed (simp add: LoggedIn)
qed simp_all

lemma unmixed_reachable:
  fixes deps :: "'v deps"
  assumes "run evs (start (workers deps files) (launch_world (length files) t c h)) = Some s"
  shows "unmixed (set ((Some c, Some h) # delivered evs)) (sys_world s)"
proof -
  let ?B = "set ((Some c, Some h) # delivered evs)"
  let ?w = "launch_world (length files) t c h :: 'v world"
  have u0: "unmixed ?B ?w"
    by (simp add: unmixed_def launch_world_def initial_world_def board_apply_def)
  show ?thesis
  proof (cases "files = []")
    case True
    with assms have "sys_world s = ?w"
      by (auto simp: workers_def dest: run_no_tasks)
    with u0 show ?thesis by simp
  next
    case False
    have "\<forall>j<length (workers deps files). inv (unmixed_rg ?B) (sys_world s)"
    proof (rule rg_sound [where S = "\<lambda>_. unmixed_rg ?B", OF unmixed_rg_family _ assms])
      show "\<forall>j<length (workers deps files).
          inv (unmixed_rg ?B) ?w \<and> init j (unmixed_rg ?B) (workers deps files ! j) ?w"
        using u0 by (simp add: workers_nth init_process_file_unmixed_rg)
      show "\<forall>ev\<in>set evs. okr (unmixed_rg ?B) (resp ev)"
        by (simp add: delivers_delivered)
    qed
    with False show ?thesis by auto
  qed
qed

text \<open>
  C3. Replacing the credential bundle is atomic for the readers. In every state the
  workers can reach, under every schedule, the store holds the cookies and the headers of
  one and the same login, the first one or one that returned during the schedule; so a
  worker that runs \<^verbatim>\<open>new_client\<close> in that state gets the client of such a bundle. Whenever an
  operation was invoked, the store held such a bundle and the client had been built from
  such a bundle: never from the cookies of one login and the headers of another.
\<close>

theorem bundle_replacement_atomic:
  fixes deps :: "'v deps"
  assumes "run evs (start (workers deps files) (launch_world (length files) t c h)) = Some s"
  shows "(auth_cookies (sys_world s), auth_headers (sys_world s)) \<in> set ((Some c, Some h) # delivered evs) \<and>
         (\<forall>j. \<exists>b \<in> set ((Some c, Some h) # delivered evs).
            run_sync j (new_client :: ('v, client) coro) (sys_world s) = (Return (client_of b), sys_world s)) \<and>
         (\<forall>i call cl cookies headers.
            (i, Invoked call cl cookies headers) \<in> set (io_log (sys_world s)) \<longrightarrow>
            (cookies, headers) \<in> set ((Some c, Some h) # delivered evs) \<and>
            (\<exists>b \<in> set ((Some c, Some h) # delivered evs). cl = client_of b))"
proof -
  let ?B = "set ((Some c, Some h) # delivered evs)"
  from unmixed_reachable [OF assms]
  have st: "(auth_cookies (sys_world s), auth_headers (sys_world s)) \<in> ?B"
    and lg: "list_all (\<lambda>e. whole ?B (snd e)) (io_log (sys_world s))"
    by (simp_all add: unmixed_def)
  have "\<exists>b \<in> ?B. run_sync j (new_client :: ('v, client) coro) (sys_world s) = (Return (client_of b), sys_world s)" for j
    by (rule bexI [OF _ st]) (simp add: new_client_def client_of_def)
  moreover have "(cookies, headers) \<in> ?B \<and> (\<exists>b \<in> ?B. cl = client_of b)"
    if "(i, Invoked call cl cookies headers) \<in> set (io_log (sys_world s))" for i call cl cookies headers
  proof -
    from lg that have "whole ?B (Invoked call cl cookies headers)"
      by (force simp: list_all_iff)
    then show ?thesis by auto
  qed
  ultimately show ?thesis using st by blast
qed

theorem bundle_replacement_atomic_witness:
  "\<exists>s. run evs_refresh (start (workers deps0 [f1, f2])
             (launch_world 2 0 [(ascii ''sid'', ascii ''1'')] [(ascii ''token'', ascii ''a'')])) = Some s \<and>
       length (filter is_invoked (map snd (io_log (sys_world s)))) = 3 \<and>
       (auth_cookies (sys_world s), auth_headers (sys_world s)) \<in>
         {(Some [(ascii ''sid'', ascii ''1'')], Some [(ascii ''token'', ascii ''a'')]),
          (Some [(ascii ''sid'', ascii ''2'')], Some [(ascii ''token'', ascii ''b'')])}"
proof -
  obtain s where s: "run evs_refresh (start (workers deps0 [f1, f2])
      (launch_world 2 0 [(ascii ''sid'', ascii ''1'')] [(ascii ''token'', ascii ''a'')])) = Some s"
    and n: "length (filter is_invoked (map snd (io_log (sys_world s)))) = 3"
    by (simp add: pipeline_eval evs_refresh_def deps0_def row0_def f1_def f2_def)
  have "delivered evs_refresh = [(Some [(ascii ''sid'', ascii ''2'')], Some [(ascii ''token'', ascii ''b'')])]"
    by (simp add: delivered_def evs_refresh_def turn_def List.map_filter_simps)
  moreover have l: "2 = length [f1, f2]"
    by simp
  note bundle_replacement_atomic [OF s [unfolded l]]
  ultimately show ?thesis using s n
    by auto
qed

section \<open>The percentages a task reports\<close>

lemma progress_rg_simps [simp]:
  "inv (progress_rg pre i) w = (i < board_lines w \<and> (\<exists>ps. percents i w = pre i @ ps \<and> well_reported ps (logins i w)))"
  "rely (progress_rg pre i) a b = (pobs i b = pobs i a)"
  "guar (progress_rg pre i) a b = (\<forall>j. j \<noteq> i \<longrightarrow> pobs j b = pobs j a)"
  "okr (progress_rg pre i) r = True"
  by (simp_all add: progress_rg_def)

lemma progress_rg_family: "rg_family (progress_rg pre) n"
  unfolding rg_family_def
proof (intro conjI allI impI)
  fix j a b
  assume "inv (progress_rg pre j) a \<and> rely (progress_rg pre j) a b"
  then show "inv (progress_rg pre j) b"
    by (auto simp: pobs_def)
qed auto

lemma percents_simps [simp]:
  "percents j (w\<lparr>clock := t\<rparr>) = percents j w"
  "percents j (w\<lparr>sema_value := n\<rparr>) = percents j w"
  "percents j (w\<lparr>holders := hs\<rparr>) = percents j w"
  "percents j (w\<lparr>io_log := l\<rparr>) = percents j w"
  "percents j (w\<lparr>auth_cookies := c\<rparr>) = percents j w"
  "percents j (w\<lparr>auth_headers := h\<rparr>) = percents j w"
  by (simp_all add: percents_def)

lemma logins_simps [simp]:
  "logins j (w\<lparr>clock := t\<rparr>) = logins j w"
  "logins j (w\<lparr>sema_value := n\<rparr>) = logins j w"
  "logins j (w\<lparr>holders := hs\<rparr>) = logins j w"
  "logins j (w\<lparr>auth_cookies := c\<rparr>) = logins j w"
  "logins j (w\<lparr>auth_headers := h\<rparr>) = logins j w"
  "logins j (board_apply l ev w) = logins j w"
  "logins j (w\<lparr>io_log := io_log w @ [(i, e)]\<rparr>) = (if i = j \<and> is_login e then Suc (logins j w) else logins j w)"
  by (simp_all add: logins_def)

lemma percents_board_apply:
  "percents j (board_apply i ev w) =
     (if i < board_lines w \<and> i = j
      then percents j w @ (case ev of Progress text p \<Rightarrow> [min 100 p] | Complete text \<Rightarrow> [100] | Fail text \<Rightarrow> [])
      else percents j w)"
  by (cases ev) (simp_all add: percents_def board_apply_def List.map_filter_def)

lemma pobs_simps [simp]:
  "pobs j (w\<lparr>clock := t\<rparr>) = pobs j w"
  "pobs j (w\<lparr>sema_value := n\<rparr>) = pobs j w"
  "pobs j (w\<lparr>holders := hs\<rparr>) = pobs j w"
  "pobs j (w\<lparr>auth_cookies := c\<rparr>) = pobs j w"
  "pobs j (w\<lparr>auth_headers := h\<rparr>) = pobs j w"
  "j \<noteq> i \<Longrightarrow> pobs j (board_apply i ev w) = pobs j w"
  "j \<noteq> i \<Longrightarrow> pobs j (w\<lparr>io_log := io_log w @ [(i, e)]\<rparr>) = pobs j w"
  by (simp_all add: pobs_def percents_board_apply)

lemma got_to_updates [simp]:
  "got_to pre i k q w0 (w\<lparr>clock := t\<rparr>) = got_to pre i k q w0 w"
  "got_to pre i k q w0 (w\<lparr>sema_value := n\<rparr>) = got_to pre i k q w0 w"
  "got_to pre i k q w0 (w\<lparr>holders := hs\<rparr>) = got_to pre i k q w0 w"
  "got_to pre i k q w0 (w\<lparr>auth_cookies := c\<rparr>) = got_to pre i k q w0 w"
  "got_to pre i k q w0 (w\<lparr>auth_headers := h\<rparr>) = got_to pre i k q w0 w"
  by (simp_all add: got_to_def)

lemma well_reported_Nil [simp]: "well_reported [] 0"
  by (simp add: well_reported_def)

lemma well_reported_stage:
  assumes "well_reported ps m" "filter (\<lambda>p. p \<noteq> 20) ps = take k skeleton" "k < 8" "skeleton ! k = q"
  shows "well_reported (ps @ [q]) m \<and> filter (\<lambda>p. p \<noteq> 20) (ps @ [q]) = take (Suc k) skeleton"
proof -
  from assms(3,4) have q: "q \<noteq> 20"
    by (auto simp: skeleton_def nth_Cons split: nat.splits)
  from assms(3) have len: "length (take k skeleton) = k" by (simp add: skeleton_def)
  have l8: "length skeleton = 8" by (simp add: skeleton_def)
  with assms(3) have "take (Suc k) skeleton = take k skeleton @ [skeleton ! k]"
    by (simp add: take_Suc_conv_app_nth)
  with assms(2,4) q have f: "filter (\<lambda>p. p \<noteq> 20) (ps @ [q]) = take (Suc k) skeleton"
    by simp
  moreover have "\<forall>j<length (ps @ [q]). (ps @ [q]) ! j = 20 \<longrightarrow> 0 < j \<and> (ps @ [q]) ! (j - 1) \<in> {25, 45, 55, 80}"
  proof (intro allI impI)
    fix j assume j: "j < length (ps @ [q])" "(ps @ [q]) ! j = 20"
    with q have "j < length ps" by (cases "j = length ps") auto
    with j assms(1) show "0 < j \<and> (ps @ [q]) ! (j - 1) \<in> {25, 45, 55, 80}"
      by (auto simp: well_reported_def nth_append)
  qed
  moreover from assms(1) q have "length (filter (\<lambda>p. p = 20) (ps @ [q])) = m"
    by (simp add: well_reported_def)
  ultimately show ?thesis
    using assms(3) l8 by (simp add: well_reported_def)
qed

lemma well_reported_retry:
  assumes "well_reported ps m" "ps \<noteq> []" "last ps \<in> {25, 45, 55, 80}"
  shows "well_reported (ps @ [20]) (Suc m) \<and> filter (\<lambda>p. p \<noteq> 20) (ps @ [20]) = filter (\<lambda>p. p \<noteq> 20) ps"
proof -
  have "\<forall>j<length (ps @ [20]). (ps @ [20]) ! j = 20 \<longrightarrow> 0 < j \<and> (ps @ [20]) ! (j - 1) \<in> {25, 45, 55, 80}"
  proof (intro allI impI)
    fix j assume j: "j < length (ps @ [20::nat])" "(ps @ [20]) ! j = 20"
    show "0 < j \<and> (ps @ [20]) ! (j - 1) \<in> {25, 45, 55, 80}"
    proof (cases "j = length ps")
      case True
      with assms(2,3) show ?thesis
        by (simp add: nth_append last_conv_nth)
    next
      case False
      with j have "j < length ps" by simp
      with j assms(1) show ?thesis
        by (auto simp: well_reported_def nth_append)
    qed
  qed
  with assms(1) show ?thesis
    by (simp add: well_reported_def)
qed

lemma advancesI:
  "(\<And>K w0 w. got_to pre i k q w0 w \<Longrightarrow> (\<And>r w0' w' k' q'. got_to pre i k' q' w0' w' \<Longrightarrow> K r w0' w') \<Longrightarrow>
      wp i (progress_rg pre i) t K w0 w) \<Longrightarrow> advances pre i k q t"
  unfolding advances_def by blast

lemma advancesD:
  "advances pre i k q t \<Longrightarrow> got_to pre i k q w0 w \<Longrightarrow>
   (\<And>r w0' w' k' q'. got_to pre i k' q' w0' w' \<Longrightarrow> K r w0' w') \<Longrightarrow> wp i (progress_rg pre i) t K w0 w"
  unfolding advances_def by blast

lemma got_to_inv: "got_to pre i k q w0 w \<Longrightarrow> inv (progress_rg pre i) w \<and> guar (progress_rg pre i) w0 w"
  by (auto simp: got_to_def)

lemma got_to_resumed:
  assumes "got_to pre i k q w0 w" "pobs i w2 = pobs i w"
  shows "got_to pre i k q w2 w2"
  using assms by (auto simp: got_to_def pobs_def)

lemma got_to_log:
  "\<not> is_login e \<Longrightarrow> got_to pre i k q w0 (w\<lparr>io_log := io_log w @ [(i, e)]\<rparr>) = got_to pre i k q w0 w"
  by (simp add: got_to_def)

lemma got_to_forget: "got_to pre i k q w0 w \<Longrightarrow> got_to pre i k 20 w0 w"
  by (auto simp: got_to_def)

lemma got_to_progress:
  assumes "got_to pre i k q w0 w" "k < 8" "skeleton ! k = q'"
  shows "got_to pre i (Suc k) q' w0 (board_apply i (Progress text q') w)"
proof -
  from assms(2,3) have le: "q' \<le> 100"
    by (auto simp: skeleton_def nth_Cons split: nat.splits)
  from assms(1) obtain ps where ps: "percents i w = pre i @ ps" "well_reported ps (logins i w)"
    "filter (\<lambda>p. p \<noteq> 20) ps = take k skeleton" and i: "i < board_lines w"
    and o: "\<forall>j. j \<noteq> i \<longrightarrow> pobs j w = pobs j w0"
    by (auto simp: got_to_def)
  from well_reported_stage [OF ps(2,3) assms(2,3)] ps(1) i le o show ?thesis
    unfolding got_to_def
    by (auto simp: percents_board_apply intro!: exI [of _ "ps @ [q']"])
qed

lemma got_to_complete:
  assumes "got_to pre i 7 q w0 w"
  shows "got_to pre i 8 100 w0 (board_apply i (Complete text) w)"
proof -
  from assms(1) obtain ps where ps: "percents i w = pre i @ ps" "well_reported ps (logins i w)"
    "filter (\<lambda>p. p \<noteq> 20) ps = take 7 skeleton" and i: "i < board_lines w"
    and o: "\<forall>j. j \<noteq> i \<longrightarrow> pobs j w = pobs j w0"
    by (auto simp: got_to_def)
  have "skeleton ! 7 = 100" by (simp add: skeleton_def)
  from well_reported_stage [OF ps(2,3) _ this] ps(1) i o show ?thesis
    unfolding got_to_def
    by (auto simp: percents_board_apply intro!: exI [of _ "ps @ [100]"])
qed

lemma got_to_fail: "got_to pre i k q w0 w \<Longrightarrow> got_to pre i k q w0 (board_apply i (Fail text) w)"
  by (auto simp: got_to_def percents_board_apply)

lemma got_to_retry:
  assumes "got_to pre i k q w0 w" "q \<in> {25, 45, 55, 80}"
  shows "got_to pre i k 20 w0
           ((board_apply i (Progress text 20) w)\<lparr>io_log := io_log w @ [(i, LoginStarted)]\<rparr>)"
proof -
  from assms obtain ps where ps: "percents i w = pre i @ ps" "well_reported ps (logins i w)"
    "filter (\<lambda>p. p \<noteq> 20) ps = take k skeleton" "ps \<noteq> []" "last ps = q" and i: "i < board_lines w"
    and o: "\<forall>j. j \<noteq> i \<longrightarrow> pobs j w = pobs j w0"
    by (auto simp: got_to_def)
  from ps(5) assms(2) have "last ps \<in> {25, 45, 55, 80}" by simp
  from well_reported_retry [OF ps(2,4) this] ps(1,3) i o show ?thesis
    unfolding got_to_def
    by (auto simp: percents_board_apply pobs_def logins_def intro!: exI [of _ "ps @ [20]"])
qed

lemma advances_Return: "advances pre i k q (Return a)"
  by (rule advancesI) simp

lemma advances_Raise: "advances pre i k q (Raise e)"
  by (rule advancesI) simp

lemma advances_PerfCounter:
  assumes "\<And>t. advances pre i k q (f t)"
  shows "advances pre i k q (PerfCounter f)"
  by (rule advancesI) (simp add: advancesD [OF assms])

lemma advances_set_progress:
  assumes "advances pre i (Suc k) q' t" "k < 8" "skeleton ! k = q'"
  shows "advances pre i k q (set_progress i text q' t)"
  by (rule advancesI)
    (simp add: set_progress_def advancesD [OF assms(1) got_to_progress [OF _ assms(2,3)]])

lemma advances_board_fail:
  assumes "advances pre i k q t"
  shows "advances pre i k q (board_fail i text t)"
  by (rule advancesI) (simp add: board_fail_def advancesD [OF assms got_to_fail])

lemma advances_board_complete:
  assumes "advances pre i (Suc k) 100 t" "k = 7"
  shows "advances pre i k q (board_complete i text t)"
proof (rule advancesI)
  fix K :: "exn + 'b \<Rightarrow> 'a world \<Rightarrow> 'a world \<Rightarrow> bool" and w0 w :: "'a world"
  assume g: "got_to pre i k q w0 w"
    and K: "\<And>r w0' w' k' q'. got_to pre i k' q' w0' w' \<Longrightarrow> K r w0' w'"
  from g assms(2) have "got_to pre i (Suc k) 100 w0 (board_apply i (Complete text) w)"
    using got_to_complete [of pre i q w0 w] by simp
  from advancesD [OF assms(1) this] K
  show "wp i (progress_rg pre i) (board_complete i text t) K w0 w"
    by (simp add: board_complete_def)
qed

lemma advances_SemaRelease:
  assumes "advances pre i k q t"
  shows "advances pre i k q (SemaRelease t)"
  by (rule advancesI) (simp add: advancesD [OF assms])

lemma advances_SemaAcquire:
  assumes "advances pre i k q t"
  shows "advances pre i k q (SemaAcquire t)"
proof (rule advancesI)
  fix K :: "exn + 'b \<Rightarrow> 'a world \<Rightarrow> 'a world \<Rightarrow> bool" and w0 w :: "'a world"
  assume g: "got_to pre i k q w0 w"
    and K: "\<And>r w0' w' k' q'. got_to pre i k' q' w0' w' \<Longrightarrow> K r w0' w'"
  show "wp i (progress_rg pre i) (SemaAcquire t) K w0 w"
    using got_to_inv [OF g]
    by (auto simp: resumed_def intro!: advancesD [OF assms] got_to_resumed [OF g] K)
qed

lemma advances_ToThreadReadRows:
  assumes "\<And>r. advances pre i k q (f r)"
  shows "advances pre i k q (ToThreadReadRows p f)"
proof (rule advancesI)
  fix K :: "exn + 'b \<Rightarrow> 'a world \<Rightarrow> 'a world \<Rightarrow> bool" and w0 w :: "'a world"
  assume g: "got_to pre i k q w0 w"
    and K: "\<And>r w0' w' k' q'. got_to pre i k' q' w0' w' \<Longrightarrow> K r w0' w'"
  let ?w = "w\<lparr>io_log := io_log w @ [(i, ReadStarted p)]\<rparr>"
  from g have g': "got_to pre i k q w0 ?w" by (simp add: got_to_log)
  show "wp i (progress_rg pre i) (ToThreadReadRows p f) K w0 w"
    using got_to_inv [OF g']
    by (auto simp: resumed_def intro!: advancesD [OF assms] got_to_resumed [OF g'] K)
qed

lemma advances_new_client:
  assumes "\<And>cl. advances pre i k q (f cl)"
  shows "advances pre i k q (bind new_client f)"
  by (rule advancesI) (simp add: new_client_def advancesD [OF assms])

lemma advances_try_finally:
  assumes "advances pre i k q m"
    and "\<And>k' q' e. advances pre i k' q' (fin (Raise e))"
    and "\<And>k' q' a. advances pre i k' q' (fin (Return a))"
  shows "advances pre i k q (try_finally m fin)"
proof (rule advancesI)
  fix K :: "exn + 'b \<Rightarrow> 'a world \<Rightarrow> 'a world \<Rightarrow> bool" and w0 w :: "'a world"
  assume g: "got_to pre i k q w0 w"
    and K: "\<And>r w0' w' k' q'. got_to pre i k' q' w0' w' \<Longrightarrow> K r w0' w'"
  show "wp i (progress_rg pre i) (try_finally m fin) K w0 w"
    unfolding wp_try_finally
    by (rule advancesD [OF assms(1) g])
      (auto split: sum.splits intro: K advancesD [OF assms(2)] advancesD [OF assms(3)])
qed

lemma wp_retry_progress:
  assumes g: "got_to pre i k q w0 w" and q: "q \<in> {25, 45, 55, 80}"
    and K: "\<And>r w0' w'. got_to pre i k 20 w0' w' \<Longrightarrow> K r w0' w'"
  shows "wp i (progress_rg pre i) (with_auth_retry i tag call cl) K w0 w"
proof -
  let ?w1 = "w\<lparr>io_log := io_log w @ [(i, Invoked call cl (auth_cookies w) (auth_headers w))]\<rparr>"
  from g have g1: "got_to pre i k q w0 ?w1" by (simp add: got_to_log)
  have after: "wp i (progress_rg pre i)
      (case e of HTTPStatusError status \<Rightarrow>
         if status \<notin> {401, 403, 419} then Raise e
         else set_progress i (tag @ ascii '' Refreshing auth'' @ [0x2026]) 20
                (bind refresh (\<lambda>_. bind new_client (\<lambda>c2. await_call call c2)))
       | _ \<Rightarrow> Raise e) K w2 (w2\<lparr>clock := t\<rparr>)"
    if r: "pobs i w2 = pobs i ?w1" for e w2 t
  proof -
    from got_to_resumed [OF g1 r] have g2: "got_to pre i k q w2 (w2\<lparr>clock := t\<rparr>)" by simp
    let ?w3 = "(board_apply i (Progress (tag @ ascii '' Refreshing auth'' @ [0x2026]) 20) (w2\<lparr>clock := t\<rparr>))
        \<lparr>io_log := io_log w2 @ [(i, LoginStarted)]\<rparr>"
    from got_to_retry [OF g2 q] have g3: "got_to pre i k 20 w2 ?w3" by simp
    have login: "wp i (progress_rg pre i) (bind (store_bundle lr) (\<lambda>_. bind new_client (\<lambda>c2. await_call call c2)))
        K w4 (w4\<lparr>clock := t'\<rparr>)" if r4: "pobs i w4 = pobs i ?w3" for lr w4 t'
    proof -
      from got_to_resumed [OF g3 r4] have g4: "got_to pre i k 20 w4 w4" .
      show ?thesis
      proof (cases lr)
        case (Inl e')
        with g4 show ?thesis by (simp add: store_bundle_def K)
      next
        case (Inr b)
        obtain c h where b: "b = (c, h)" by (cases b)
        let ?w5 = "w4\<lparr>clock := t', auth_cookies := Some c, auth_headers := Some h\<rparr>"
        let ?w6 = "?w5\<lparr>io_log := io_log w4 @
            [(i, Invoked call \<lparr>client_headers = or_empty (Some h), client_cookies = or_empty (Some c)\<rparr> (Some c) (Some h))]\<rparr>"
        from g4 have g6: "got_to pre i k 20 w4 ?w6"
          using got_to_log [of "Invoked call \<lparr>client_headers = or_empty (Some h), client_cookies = or_empty (Some c)\<rparr> (Some c) (Some h)"
              pre i k 20 w4 ?w5] by simp
        show ?thesis
          using got_to_inv [OF g6] got_to_resumed [OF g6]
          by (auto simp: Inr b store_bundle_def new_client_def await_call_def resumed_def
              split: sum.splits intro!: K)
      qed
    qed
    show ?thesis
      using got_to_inv [OF g3] g2 login
      by (auto simp: set_progress_def refresh_def wp_bind resumed_def K [OF got_to_forget]
          split: exn.splits)
  qed
  show ?thesis
    using got_to_inv [OF g1] got_to_resumed [OF g1] after
    by (auto simp: with_auth_retry_def await_call_def wp_try_except resumed_def
        split: sum.splits intro!: K [OF got_to_forget])
qed

lemma advances_retry:
  assumes "\<And>a. advances pre i k 20 (f a)" "q \<in> {25, 45, 55, 80}"
  shows "advances pre i k q (bind (with_auth_retry i tag call cl) f)"
proof (rule advancesI)
  fix K :: "exn + 'b \<Rightarrow> 'a world \<Rightarrow> 'a world \<Rightarrow> bool" and w0 w :: "'a world"
  assume g: "got_to pre i k q w0 w"
    and K: "\<And>r w0' w' k' q'. got_to pre i k' q' w0' w' \<Longrightarrow> K r w0' w'"
  show "wp i (progress_rg pre i) (bind (with_auth_retry i tag call cl) f) K w0 w"
    unfolding wp_bind
    by (rule wp_retry_progress [OF g assms(2)])
      (auto split: sum.splits intro: K advancesD [OF assms(1)])
qed

lemma advances_process_file: "advances pre i 0 20 (process_file deps f i)"
  unfolding process_file_def async_with_SEMA_def Let_def
  by (intro advances_PerfCounter advances_SemaAcquire advances_try_finally advances_SemaRelease
      advances_set_progress [where k = 0] advances_ToThreadReadRows)
    (auto split: sum.splits simp: skeleton_def
      intro!: advances_Return advances_Raise advances_board_fail advances_new_client
        advances_set_progress advances_retry advances_PerfCounter advances_board_complete)

lemma launch_pobs:
  "i < n \<Longrightarrow> logins i (launch_world n t c h) = 0 \<and> board_lines (launch_world n t c h) = n"
  by (simp add: launch_world_def initial_world_def logins_def)

lemma init_process_file_progress:
  assumes "percents i w = pre i" "logins i w = 0" "i < board_lines w"
  shows "init i (progress_rg pre i) (process_file deps f i) w"
  unfolding init_def
proof (intro allI impI, elim conjE)
  fix w2 :: "'a world"
  assume "rely (progress_rg pre i) w w2"
  with assms have g: "got_to pre i 0 20 w2 w2"
    by (auto simp: got_to_def pobs_def)
  show "wp i (progress_rg pre i) (process_file deps f i) (final (progress_rg pre i)) w2 w2"
    by (rule advancesD [OF advances_process_file g]) (auto simp: final_def dest: got_to_inv)
qed

lemma progress_reachable:
  fixes deps :: "'v deps"
  assumes "run evs (start (workers deps files) (launch_world (length files) t c h)) = Some s"
    and "i < length files"
  shows "\<exists>ps. percents i (sys_world s) = percents i (launch_world (length files) t c h :: 'v world) @ ps \<and>
              well_reported ps (logins i (sys_world s))"
proof -
  let ?w = "launch_world (length files) t c h :: 'v world"
  let ?S = "progress_rg (\<lambda>j. percents j ?w) :: nat \<Rightarrow> 'v rg"
  have "\<forall>j<length (workers deps files). inv (?S j) (sys_world s)"
  proof (rule rg_sound [OF progress_rg_family _ assms(1)])
    show "\<forall>j<length (workers deps files). inv (?S j) ?w \<and> init j (?S j) (workers deps files ! j) ?w"
      by (auto simp: workers_nth launch_pobs intro!: init_process_file_progress)
    show "\<forall>ev\<in>set evs. okr (?S (worker ev)) (resp ev)"
      by simp
  qed
  with assms(2) show ?thesis by simp
qed

text \<open>
  C6, as the claim states it, fails: when the first operation of a task fails with 401,
  the task has reported 5, 15 and 25 and then reports 20 for the auth retry.
\<close>

theorem progress_percents_counterexample:
  "map_option (\<lambda>s. task_percents 1 (launch_world 2 0 [] []) (sys_world s))
     (run evs_retry (start (workers deps0 [f1, f2]) (launch_world 2 0 [] []))) = Some [5, 15, 25, 20]"
  by (simp add: pipeline_eval evs_retry_def deps0_def row0_def f1_def f2_def task_percents_def
      percents_def List.map_filter_simps)

text \<open>
  C6, amended. In every state the workers can reach, under every schedule, the
  percentages the task of a file has reported are these: leaving out every 20, they are
  5, 15, 25, 40, 45, 55, 80, 100 in this order, as far as the task has got, and so
  non-decreasing; every 20 comes directly after the 25, 45, 55 or 80 of a stage; and
  there is one 20 for each login the task has started, that is, for each auth retry.
\<close>

theorem progress_percents:
  fixes deps :: "'v deps"
  assumes "run evs (start (workers deps files) (launch_world (length files) t c h)) = Some s"
    and "i < length files"
  shows "let w0 = launch_world (length files) t c h :: 'v world;
             ps = task_percents i w0 (sys_world s)
         in percents i (sys_world s) = percents i w0 @ ps \<and>
            filter (\<lambda>p. p \<noteq> 20) ps = take (length (filter (\<lambda>p. p \<noteq> 20) ps)) skeleton \<and>
            sorted (filter (\<lambda>p. p \<noteq> 20) ps) \<and>
            (\<forall>k<length ps. ps ! k = 20 \<longrightarrow> 0 < k \<and> ps ! (k - 1) \<in> {25, 45, 55, 80}) \<and>
            length (filter (\<lambda>p. p = 20) ps) = logins i (sys_world s)"
proof -
  let ?w = "launch_world (length files) t c h :: 'v world"
  from progress_reachable [OF assms] obtain ps where
    ps: "percents i (sys_world s) = percents i ?w @ ps" "well_reported ps (logins i (sys_world s))"
    by blast
  then have tp: "task_percents i ?w (sys_world s) = ps"
    by (simp add: task_percents_def)
  have "sorted skeleton" by (simp add: skeleton_def)
  then have "sorted (take (length (filter (\<lambda>p. p \<noteq> 20) ps)) skeleton)"
    by (rule sorted_wrt_take)
  with ps(2) have "sorted (filter (\<lambda>p. p \<noteq> 20) ps)"
    by (simp add: well_reported_def)
  with ps tp show ?thesis
    by (simp add: Let_def well_reported_def)
qed

theorem progress_percents_witness:
  "\<exists>s. run evs_retry_on (start (workers deps0 [f1, f2]) (launch_world 2 0 [] [])) = Some s \<and>
       task_percents 1 (launch_world 2 0 [] []) (sys_world s) = [5, 15, 25, 20, 40, 45] \<and>
       logins 1 (sys_world s) = 1"
proof -
  obtain s where s: "run evs_retry_on (start (workers deps0 [f1, f2]) (launch_world 2 0 [] [])) = Some s"
    and p: "task_percents 1 (launch_world 2 0 [] []) (sys_world s) = [5, 15, 25, 20, 40, 45]"
    by (simp add: pipeline_eval evs_retry_on_def evs_retry_def deps0_def row0_def f1_def f2_def
        task_percents_def percents_def List.map_filter_simps)
  have l: "2 = length [f1, f2]" by simp
  have "(1::nat) < length [f1, f2]" by simp
  from progress_percents [OF s [unfolded l] this]
  have "length (filter (\<lambda>p. p = 20) (task_percents 1 (launch_world 2 0 [] []) (sys_world s))) =
      logins 1 (sys_world s)"
    by (simp add: Let_def numeral_2_eq_2)
  with p s show ?thesis
    by simp
qed

end
